theory Spec2Isabelle
  imports Complex_Main
begin

unbundle bit_operations_syntax

section \<open>Arrays of numbers\<close>

text \<open>
  \<^verbatim>\<open>onyx_render.py\<close> works on numpy arrays. An array is modelled by the list of its
  entries along axis 0. The entries of the pressure array are numbers, the entries of the
  \<open>(n, 2)\<close> array of positions are rows of two numbers. Numbers are modelled by
  \<^typ>\<open>real\<close> with exact arithmetic: the rounding of 32 and 64 bit floats is not part
  of the model, so the theorems below speak about the shape of the data (lengths, the
  order of the canvas calls, the formula behind each argument), not about rounding.
\<close>

datatype point = Point (px: real) (py: real)

instantiation point :: real_vector
begin

definition zero_point :: point where
  "zero_point = Point 0 0"

definition plus_point :: "point \<Rightarrow> point \<Rightarrow> point" where
  "plus_point p q = Point (px p + px q) (py p + py q)"

definition minus_point :: "point \<Rightarrow> point \<Rightarrow> point" where
  "minus_point p q = Point (px p - px q) (py p - py q)"

definition uminus_point :: "point \<Rightarrow> point" where
  "uminus_point p = Point (- px p) (- py p)"

definition scaleR_point :: "real \<Rightarrow> point \<Rightarrow> point" where
  "scaleR_point r p = Point (r * px p) (r * py p)"

instance
  by standard
    (simp_all add: zero_point_def plus_point_def minus_point_def uminus_point_def
      scaleR_point_def algebra_simps)

end

section \<open>Signal smoothing\<close>

text \<open>\<^verbatim>\<open>np.cumsum(bdata, 0)\<close>: the running sums along axis 0.\<close>

fun cumsum_from :: "'a::real_vector \<Rightarrow> 'a list \<Rightarrow> 'a list" where
  "cumsum_from s [] = []"
| "cumsum_from s (x # xs) = (s + x) # cumsum_from (s + x) xs"

definition cumsum :: "'a::real_vector list \<Rightarrow> 'a list" where
  "cumsum xs = cumsum_from 0 xs"

text \<open>
  \<^verbatim>\<open>moving_average(bdata, window_size)\<close>. \<^verbatim>\<open>bdata[:1]\<close> and \<^verbatim>\<open>bdata[-1:]\<close> are arrays
  of at most one entry (none when \<open>bdata\<close> is empty), repeated \<open>before\<close> and \<open>after\<close>
  times around \<open>bdata\<close>; the two slices of the running sums have the same length.
  The source adds and subtracts the running sums as floats; here they are exact, so what
  is proved of the values of \<open>moving_average\<close> is proved of the exact averages only, while
  lengths and the order of the entries are those of the source.
\<close>

definition moving_average :: "'a::real_vector list \<Rightarrow> int \<Rightarrow> 'a list" where
  "moving_average bdata window_size =
     (if window_size \<le> 1 then bdata
      else
        let first = take 1 bdata;
            last = drop (length bdata - 1) bdata;
            before = window_size div 2;
            after = window_size - before;
            bpad = replicate (nat before) first;
            epad = replicate (nat after) last;
            padded = concat bpad @ bdata @ concat epad;
            csum = cumsum padded;
            w = nat window_size;
            diff = map2 (-) (drop w csum) (take (length csum - w) csum)
        in map (\<lambda>x. x /\<^sub>R real w) diff)"

text \<open>
  \<^verbatim>\<open>bdata.reshape(-1, k, ...)\<close> on an array whose length is a multiple of \<open>k\<close>: row \<open>i\<close>
  holds the entries \<open>i * k, ..., i * k + k - 1\<close>.
\<close>

definition chunks :: "nat \<Rightarrow> 'a list \<Rightarrow> 'a list list" where
  "chunks k xs = map (\<lambda>i. take k (drop (i * k) xs)) [0..<length xs div k]"

text \<open>\<^verbatim>\<open>.mean(1)\<close> of one block.\<close>

definition mean :: "'a::real_vector list \<Rightarrow> 'a" where
  "mean block = sum_list block /\<^sub>R real (length block)"

text \<open>
  \<^verbatim>\<open>subsample(bdata, subsample)\<close>. After the padding the length is a multiple of the
  factor, so the reshape of the source cannot fail here (lemma \<open>subsample_pad_multiple\<close>).
\<close>

definition subsample_pad :: "'a list \<Rightarrow> nat \<Rightarrow> 'a list" where
  "subsample_pad bdata k =
     (if length bdata mod k \<noteq> 0
      then bdata @ concat (replicate (k - length bdata mod k) (drop (length bdata - 1) bdata))
      else bdata)"

definition subsample :: "'a::real_vector list \<Rightarrow> int \<Rightarrow> 'a list" where
  "subsample bdata k =
     (if k \<le> 1 then bdata
      else map mean (chunks (nat k) (subsample_pad bdata (nat k))))"

definition smoothen :: "'a::real_vector list \<Rightarrow> int \<Rightarrow> int \<Rightarrow> 'a list" where
  "smoothen bdata window_size n_subsample =
     subsample (moving_average bdata window_size) n_subsample"

section \<open>Decoding a stroke\<close>

datatype error = ValueError | IndexError

text \<open>
  A row of \<^verbatim>\<open>NewShapeModel\<close>, as the query of \<^verbatim>\<open>render_pdf\<close> selects it. \<open>points\<close> is
  the array of 32 bit floats that \<^verbatim>\<open>np.frombuffer(points, dtype=np.float32).byteswap()\<close>
  reads from the blob, \<open>matrixValues\<close> the list under the key \<^verbatim>\<open>"values"\<close> of the JSON
  text; \<open>color\<close> is a Python integer.
\<close>

record shape_row =
  points :: "real list"
  matrixValues :: "real list"
  thickness :: real
  shapeType :: int
  color :: int

text \<open>
  \<^verbatim>\<open>a.reshape(-1, k)\<close> raises \<^verbatim>\<open>ValueError\<close> unless the size of \<open>a\<close> is a multiple of
  \<open>k\<close>; \<^verbatim>\<open>a.reshape(3, 3)\<close> raises it unless the size is 9.
\<close>

definition reshape_rows :: "nat \<Rightarrow> 'a list \<Rightarrow> error + 'a list list" where
  "reshape_rows k xs = (if length xs mod k \<noteq> 0 then Inl ValueError else Inr (chunks k xs))"

definition reshape_3_3 :: "'a list \<Rightarrow> error + 'a list list" where
  "reshape_3_3 xs = (if length xs \<noteq> 9 then Inl ValueError else Inr (chunks 3 xs))"

definition pressure_norm :: real where
  "pressure_norm = 1000"

definition pressure_pow :: real where
  "pressure_pow = 1 / 2"

text \<open>
  One row of \<^verbatim>\<open>np.concatenate((points, np.ones(...)), axis=1) @ matrix.T\<close>, cut to its
  first two columns.
\<close>

definition project :: "real list list \<Rightarrow> real list \<Rightarrow> point" where
  "project matrix r =
     Point (r ! 0 * matrix ! 0 ! 0 + r ! 1 * matrix ! 0 ! 1 + 1 * matrix ! 0 ! 2)
           (r ! 0 * matrix ! 1 ! 0 + r ! 1 * matrix ! 1 ! 1 + 1 * matrix ! 1 ! 2)"

text \<open>
  The lines under \<^verbatim>\<open># Read / parse DB entries\<close> and \<^verbatim>\<open># Projection matrix\<close>: the matrix
  is reshaped first, then the samples; the result is the pair \<open>(points, pressure)\<close>.
  \<^verbatim>\<open>(d[:,2] / pressure_norm) ** pressure_pow\<close> is \<open>nan\<close> for a negative pressure value; here
  \<open>powr\<close> of a negative number is some real about which nothing is known.
\<close>

definition decode :: "shape_row \<Rightarrow> error + (point list \<times> real list)" where
  "decode row =
     (case reshape_3_3 (matrixValues row) of
        Inl e \<Rightarrow> Inl e
      | Inr matrix \<Rightarrow>
          (case reshape_rows 6 (points row) of
             Inl e \<Rightarrow> Inl e
           | Inr d \<Rightarrow>
               Inr (map (project matrix) d,
                    map (\<lambda>r. (r ! 2 / pressure_norm) powr pressure_pow) d)))"

section \<open>Drawing\<close>

datatype cairo_op =
    set_source_rgb real real real
  | set_line_cap_round
  | set_line_join_round
  | set_line_width real
  | move_to real real
  | line_to real real
  | stroke
  | show_page

record paint_state =
  prev_color :: "int \<times> int \<times> int"
  prev_thickness :: real

definition scale :: real where
  "scale = 11 * 72"

definition width_scale :: real where
  "width_scale = 3 / 10"

definition enable_pressure :: bool where
  "enable_pressure = True"

definition n_subsample :: int where
  "n_subsample = 2"

definition average_win_size :: int where
  "average_win_size = 10"

text \<open>\<^verbatim>\<open>color & 0xFF, (color >> 8) & 0xFF, (color >> 16) & 0xFF\<close>\<close>

definition color_bytes :: "int \<Rightarrow> int \<times> int \<times> int" where
  "color_bytes c = (c AND 255, drop_bit 8 c AND 255, drop_bit 16 c AND 255)"

text \<open>
  The body of \<^verbatim>\<open>for r in range(points.shape[0])\<close> at index \<open>r\<close>. \<^verbatim>\<open>pressure[r]\<close> raises
  \<^verbatim>\<open>IndexError\<close> past the end of \<open>pressure\<close>; it is read for pressure strokes only.
\<close>

definition draw_step ::
  "bool \<Rightarrow> real \<Rightarrow> point list \<Rightarrow> real list \<Rightarrow> nat \<Rightarrow> error + cairo_op list" where
  "draw_step has_pressure thick pts pressure r =
     (if has_pressure \<and> length pressure \<le> r then Inl IndexError
      else Inr
        ((if has_pressure
          then [set_line_width (max (thick * width_scale * pressure ! r) (1 / 10))]
          else [])
         @ (if r = 0 then [move_to (px (pts ! r)) (py (pts ! r))]
            else line_to (px (pts ! r)) (py (pts ! r))
                 # (if has_pressure then [stroke, move_to (px (pts ! r)) (py (pts ! r))]
                    else []))))"

fun draw_loop :: "(nat \<Rightarrow> error + cairo_op list) \<Rightarrow> nat list \<Rightarrow> error + cairo_op list" where
  "draw_loop step [] = Inr []"
| "draw_loop step (r # rs) =
     (case step r of
        Inl e \<Rightarrow> Inl e
      | Inr ops \<Rightarrow>
          (case draw_loop step rs of
             Inl e \<Rightarrow> Inl e
           | Inr ops' \<Rightarrow> Inr (ops @ ops')))"

text \<open>
  The calls of the whole sample loop when no index is out of range (lemma \<open>draw_loop_walk\<close>).
\<close>

definition walk :: "bool \<Rightarrow> real \<Rightarrow> point list \<Rightarrow> real list \<Rightarrow> cairo_op list" where
  "walk has_pressure thick pts pressure =
     concat (map (\<lambda>r.
        (if has_pressure
         then [set_line_width (max (thick * width_scale * pressure ! r) (1 / 10))]
         else [])
        @ (if r = 0 then [move_to (px (pts ! r)) (py (pts ! r))]
           else line_to (px (pts ! r)) (py (pts ! r))
                # (if has_pressure then [stroke, move_to (px (pts ! r)) (py (pts ! r))]
                   else []))) [0..<length pts])"

text \<open>
  The lines under \<^verbatim>\<open># Draw\<close> up to the sample loop: what a change of thickness or of
  colour sends to the canvas, and the tracked values after it.
\<close>

definition set_paint :: "paint_state \<Rightarrow> shape_row \<Rightarrow> cairo_op list \<times> paint_state" where
  "set_paint st row =
     (let thickness_changed = (prev_thickness st \<noteq> thickness row);
          ops1 = (if thickness_changed
                  then [stroke, set_line_width (thickness row * width_scale)] else []);
          st1 = (if thickness_changed then st\<lparr>prev_thickness := thickness row\<rparr> else st);
          col = color_bytes (color row);
          color_changed = (col \<noteq> prev_color st1);
          ops2 = (if color_changed
                  then [stroke,
                        set_source_rgb (real_of_int (snd (snd col)) / 255)
                          (real_of_int (fst (snd col)) / 255) (real_of_int (fst col) / 255)]
                  else []);
          st2 = (if color_changed then st1\<lparr>prev_color := col\<rparr> else st1)
      in (ops1 @ ops2, st2))"

text \<open>One turn of \<^verbatim>\<open>for i, row in enumerate(c)\<close>.\<close>

definition render_row :: "paint_state \<Rightarrow> shape_row \<Rightarrow> error + (cairo_op list \<times> paint_state)" where
  "render_row st row =
     (case decode row of
        Inl e \<Rightarrow> Inl e
      | Inr (pts, pressure) \<Rightarrow>
          (let (ops, st') = set_paint st row;
               pts1 = map (\<lambda>p. scale *\<^sub>R p) pts;
               has_pressure = (enable_pressure \<and> shapeType row = 5);
               pts2 = smoothen pts1 average_win_size n_subsample;
               pressure2 = smoothen pressure average_win_size n_subsample
           in case draw_loop (draw_step has_pressure (thickness row) pts2 pressure2)
                     [0..<length pts2] of
                Inl e \<Rightarrow> Inl e
              | Inr ops3 \<Rightarrow> Inr (ops @ ops3, st')))"

fun render_rows ::
  "paint_state \<Rightarrow> shape_row list \<Rightarrow> error + (cairo_op list \<times> paint_state)" where
  "render_rows st [] = Inr ([], st)"
| "render_rows st (row # rows) =
     (case render_row st row of
        Inl e \<Rightarrow> Inl e
      | Inr (ops, st') \<Rightarrow>
          (case render_rows st' rows of
             Inl e \<Rightarrow> Inl e
           | Inr (ops', st'') \<Rightarrow> Inr (ops @ ops', st'')))"

text \<open>
  One turn of \<^verbatim>\<open>for page in tqdm(descriptor["pages"])\<close>; a page is given by the rows its
  query returns, in order.
\<close>

definition render_page ::
  "paint_state \<Rightarrow> shape_row list \<Rightarrow> error + (cairo_op list \<times> paint_state)" where
  "render_page st rows =
     (case render_rows st rows of
        Inl e \<Rightarrow> Inl e
      | Inr (ops, st') \<Rightarrow> Inr (ops @ [stroke, show_page], st'))"

fun render_pages ::
  "paint_state \<Rightarrow> shape_row list list \<Rightarrow> error + (cairo_op list \<times> paint_state)" where
  "render_pages st [] = Inr ([], st)"
| "render_pages st (page # pages) =
     (case render_page st page of
        Inl e \<Rightarrow> Inl e
      | Inr (ops, st') \<Rightarrow>
          (case render_pages st' pages of
             Inl e \<Rightarrow> Inl e
           | Inr (ops', st'') \<Rightarrow> Inr (ops @ ops', st'')))"

text \<open>
  \<^verbatim>\<open>prev_color = (0,0,0)\<close> and \<^verbatim>\<open>prev_thickness = 0\<close> are assigned once, before the loop
  over the pages.
\<close>

definition initial_paint :: paint_state where
  "initial_paint = \<lparr>prev_color = (0, 0, 0), prev_thickness = 0\<rparr>"

definition render_pdf :: "shape_row list list \<Rightarrow> error + cairo_op list" where
  "render_pdf pages =
     (case render_pages initial_paint pages of
        Inl e \<Rightarrow> Inl e
      | Inr (ops, st) \<Rightarrow>
          Inr ([set_source_rgb 0 0 0, set_line_cap_round, set_line_join_round] @ ops))"

text \<open>Readings of a sequence of canvas calls, used to state the properties.\<close>

definition is_stroke :: "cairo_op \<Rightarrow> bool" where
  "is_stroke c = (case c of stroke \<Rightarrow> True | _ \<Rightarrow> False)"

definition is_line_to :: "cairo_op \<Rightarrow> bool" where
  "is_line_to c = (case c of line_to x y \<Rightarrow> True | _ \<Rightarrow> False)"

definition is_paint_set :: "cairo_op \<Rightarrow> bool" where
  "is_paint_set c =
     (case c of set_source_rgb r g b \<Rightarrow> True | set_line_width w \<Rightarrow> True | _ \<Rightarrow> False)"

text \<open>The colours that a sequence of calls sets, in order.\<close>

fun source_rgbs :: "cairo_op list \<Rightarrow> (real \<times> real \<times> real) list" where
  "source_rgbs [] = []"
| "source_rgbs (set_source_rgb r g b # cs) = (r, g, b) # source_rgbs cs"
| "source_rgbs (c # cs) = source_rgbs cs"

definition canvas_calls :: "error + cairo_op list \<times> paint_state \<Rightarrow> cairo_op list" where
  "canvas_calls res = (case res of Inl e \<Rightarrow> [] | Inr (ops, st) \<Rightarrow> ops)"

text \<open>
  \<open>flushed after_stroke ops\<close>: every call that sets the colour or the line width comes
  directly after a \<open>stroke\<close> call (\<open>after_stroke\<close> tells whether the call before \<open>ops\<close> was one).
\<close>

fun flushed :: "bool \<Rightarrow> cairo_op list \<Rightarrow> bool" where
  "flushed after_stroke [] = True"
| "flushed after_stroke (c # cs) =
     ((if is_paint_set c then after_stroke else True) \<and> flushed (is_stroke c) cs)"

text \<open>
  \<open>flush_between_sets pending ops\<close>: between any two calls that set the colour or the line
  width there is a \<open>stroke\<close> call (\<open>pending\<close> tells whether such a call is waiting for one).
\<close>

fun flush_between_sets :: "bool \<Rightarrow> cairo_op list \<Rightarrow> bool" where
  "flush_between_sets pending [] = True"
| "flush_between_sets pending (c # cs) =
     (if is_paint_set c then \<not> pending \<and> flush_between_sets True cs
      else flush_between_sets (if is_stroke c then False else pending) cs)"

section \<open>Sample strokes\<close>

text \<open>
  Three collinear samples, identity matrix, packed colour \<open>0x0000FF\<close>, thickness 2,
  shape type 1.
\<close>

definition blue_stroke :: shape_row where
  "blue_stroke =
     \<lparr>points = [0, 0, 0, 0, 0, 0,  1, 1, 0, 0, 0, 0,  2, 2, 0, 0, 0, 0],
      matrixValues = [1, 0, 0,  0, 1, 0,  0, 0, 1],
      thickness = 2, shapeType = 1, color = 255\<rparr>"

text \<open>Five samples of a pen stroke (shape type 5) whose pressure falls from 1000 to 0.\<close>

definition pen_stroke :: shape_row where
  "pen_stroke =
     \<lparr>points = [0, 0, 1000, 0, 0, 0,  1 / 8, 0, 1000, 0, 0, 0,  1 / 4, 0, 1000, 0, 0, 0,
                3 / 8, 0, 0, 0, 0, 0,  1 / 2, 0, 0, 0, 0, 0],
      matrixValues = [1, 0, 0,  0, 1, 0,  0, 0, 1],
      thickness = 2, shapeType = 5, color = 255\<rparr>"

text \<open>A buffer of seven floats: one sample and one float more.\<close>

definition torn_stroke :: shape_row where
  "torn_stroke =
     \<lparr>points = [0, 0, 0, 0, 0, 0, 1],
      matrixValues = [1, 0, 0,  0, 1, 0,  0, 0, 1],
      thickness = 2, shapeType = 1, color = 255\<rparr>"

section \<open>Lengths\<close>

lemma length_cumsum_from: "length (cumsum_from s xs) = length xs"
  by (induction xs arbitrary: s) simp_all

lemma length_cumsum: "length (cumsum xs) = length xs"
  by (simp add: cumsum_def length_cumsum_from)

lemma length_concat_replicate: "length (concat (replicate n xs)) = n * length xs"
  by (induction n) simp_all

lemma length_moving_average: "length (moving_average bdata w) = length bdata"
proof (cases "w \<le> 1")
  case True
  then show ?thesis by (simp add: moving_average_def)
next
  case False
  then have w: "nat w = nat (w div 2) + nat (w - w div 2)"
    by linarith
  show ?thesis
  proof (cases bdata)
    case Nil
    then show ?thesis
      using False by (simp add: moving_average_def Let_def length_cumsum length_concat_replicate)
  next
    case (Cons x xs)
    then have "min (length bdata) 1 = 1" "length bdata - (length bdata - 1) = 1"
      by simp_all
    then show ?thesis
      using False w
      by (simp add: moving_average_def Let_def length_cumsum length_concat_replicate)
  qed
qed

lemma div_rem_aux: "r < k \<Longrightarrow> (r + q * k) div k = (q::nat)"
  by simp

lemma ceil_div_exact: "0 < k \<Longrightarrow> (q * k + k - 1) div k = (q::nat)"
proof -
  assume "0 < k"
  then obtain k' where k: "k = Suc k'" by (cases k) auto
  have "q * k + k - 1 = k' + q * k" by (simp add: k)
  moreover have "k' < k" by (simp add: k)
  ultimately show ?thesis using div_rem_aux [of k' k q] by presburger
qed

lemma ceil_div_rem: "0 < r \<Longrightarrow> r < k \<Longrightarrow> (q * k + r + k - 1) div k = (q::nat) + 1"
proof -
  assume r: "0 < r" "r < k"
  then obtain r' where r': "r = Suc r'" by (cases r) auto
  have "q * k + r + k - 1 = r' + (q + 1) * k" by (simp add: r')
  moreover have "r' < k" using r by (simp add: r')
  ultimately show ?thesis using div_rem_aux [of r' k "q + 1"] by presburger
qed

lemma length_chunks: "length (chunks k xs) = length xs div k"
  by (simp add: chunks_def)

lemma length_subsample_pad:
  assumes k: "0 < k"
  shows "length (subsample_pad xs k) = ((length xs + k - 1) div k) * k"
proof -
  define q where "q = length xs div k"
  define r where "r = length xs mod k"
  have n: "length xs = q * k + r" by (simp add: q_def r_def)
  have rk: "r < k" using k by (simp add: r_def)
  show ?thesis
  proof (cases "r = 0")
    case True
    have len: "length xs = q * k" using n True by simp
    have A: "length (subsample_pad xs k) = length xs"
      using True by (simp add: subsample_pad_def r_def)
    have B: "(length xs + k - 1) div k = q"
      unfolding len by (rule ceil_div_exact [OF k])
    show ?thesis unfolding A B by (rule len)
  next
    case False
    then have "xs \<noteq> []" by (auto simp: r_def)
    then have l1: "length xs - (length xs - 1) = 1" by (cases xs) simp_all
    have "length (subsample_pad xs k) = length xs + (k - r)"
      using False l1 by (simp add: subsample_pad_def length_concat_replicate r_def)
    then have A: "length (subsample_pad xs k) = (q + 1) * k"
      using rk n by simp
    have B: "(length xs + k - 1) div k = q + 1"
      unfolding n using False rk by (intro ceil_div_rem) simp_all
    show ?thesis unfolding A B by (rule refl)
  qed
qed

lemma length_subsample:
  "length (subsample xs k) = (if k \<le> 1 then length xs else (length xs + nat k - 1) div nat k)"
  by (simp add: subsample_def length_chunks length_subsample_pad)

lemma length_smoothen:
  "length (smoothen xs w k) = (if k \<le> 1 then length xs else (length xs + nat k - 1) div nat k)"
  by (simp add: smoothen_def length_subsample length_moving_average)


lemma cumsum_from_nth:
  "i < length xs \<Longrightarrow> cumsum_from s xs ! i = s + sum_list (take (Suc i) xs)"
proof (induction xs arbitrary: s i)
  case Nil
  then show ?case by simp
next
  case (Cons x xs)
  show ?case
  proof (cases i)
    case 0
    then show ?thesis by simp
  next
    case (Suc j)
    with Cons.prems have "j < length xs" by simp
    from Cons.IH [OF this, of "s + x"] show ?thesis
      using Suc by (simp add: add.assoc)
  qed
qed

lemma cumsum_window:
  assumes "i + w < length xs"
  shows "cumsum xs ! (i + w) - cumsum xs ! i = sum_list (take w (drop (Suc i) xs))"
proof -
  have "take (Suc i + w) xs = take (Suc i) xs @ take w (drop (Suc i) xs)"
    by (rule take_add)
  then have "sum_list (take (Suc (i + w)) xs)
      = sum_list (take (Suc i) xs) + sum_list (take w (drop (Suc i) xs))"
    by (metis add_Suc sum_list_append)
  moreover have "i < length xs" using assms by simp
  ultimately show ?thesis
    using assms by (simp add: cumsum_def cumsum_from_nth)
qed

lemma concat_replicate_single: "concat (replicate n [x]) = replicate n x"
  by (induction n) simp_all

lemma moving_average_padded:
  assumes "1 < w" and "bdata \<noteq> []"
  shows "moving_average bdata w =
    (let padded = replicate (nat (w div 2)) (hd bdata) @ bdata
                  @ replicate (nat (w - w div 2)) (last bdata);
         csum = cumsum padded
     in map (\<lambda>x. x /\<^sub>R real (nat w))
          (map2 (-) (drop (nat w) csum) (take (length csum - nat w) csum)))"
proof -
  have "take 1 bdata = [hd bdata]"
    using assms(2) by (cases bdata) simp_all
  moreover have "drop (length bdata - 1) bdata = [last bdata]"
    using assms(2) by (metis append_butlast_last_id append_eq_conv_conj length_butlast)
  ultimately show ?thesis
    using assms(1) by (simp add: moving_average_def Let_def concat_replicate_single)
qed

lemma moving_average_nth:
  assumes w: "1 < w" and i: "i < length bdata"
  shows "moving_average bdata w ! i =
    sum_list (take (nat w) (drop (Suc i)
      (replicate (nat (w div 2)) (hd bdata) @ bdata
       @ replicate (nat (w - w div 2)) (last bdata)))) /\<^sub>R real (nat w)"
proof -
  define padded where
    "padded = replicate (nat (w div 2)) (hd bdata) @ bdata
              @ replicate (nat (w - w div 2)) (last bdata)"
  have ne: "bdata \<noteq> []" using i by auto
  have wsplit: "nat w = nat (w div 2) + nat (w - w div 2)"
    using w by linarith
  have len: "length padded = length bdata + nat w"
    using wsplit by (simp add: padded_def)
  have lc: "length (cumsum padded) = length bdata + nat w"
    by (simp add: length_cumsum len)
  have "moving_average bdata w ! i =
      (cumsum padded ! (i + nat w) - cumsum padded ! i) /\<^sub>R real (nat w)"
    using i lc by (simp add: moving_average_padded [OF w ne] Let_def padded_def [symmetric]
        add.commute)
  also have "cumsum padded ! (i + nat w) - cumsum padded ! i
      = sum_list (take (nat w) (drop (Suc i) padded))"
    using i len by (intro cumsum_window) simp
  finally show ?thesis by (simp add: padded_def)
qed

lemma sum_list_replicate_scaleR:
  "sum_list (replicate n (c::'a::real_vector)) = real n *\<^sub>R c"
  by (induction n) (simp_all add: scaleR_add_left)

lemma moving_average_replicate:
  "moving_average (replicate n (c::'a::real_vector)) w = replicate n c"
proof (cases "w \<le> 1")
  case True
  then show ?thesis by (simp add: moving_average_def)
next
  case False
  then have w: "1 < w" by simp
  have wsplit: "nat w = nat (w div 2) + nat (w - w div 2)"
    using w by linarith
  show ?thesis
  proof (rule nth_equalityI)
    show "length (moving_average (replicate n c) w) = length (replicate n c)"
      by (rule length_moving_average)
  next
    fix i
    assume "i < length (moving_average (replicate n c) w)"
    then have i: "i < n" by (simp add: length_moving_average)
    then have h: "hd (replicate n c) = c" "last (replicate n c) = c"
      by (cases n; simp)+
    have "replicate (nat (w div 2)) c @ replicate n c @ replicate (nat (w - w div 2)) c
        = replicate (n + nat w) c"
      using wsplit by (simp add: replicate_add [symmetric] add.commute add.left_commute)
    then have "moving_average (replicate n c) w ! i
        = sum_list (take (nat w) (drop (Suc i) (replicate (n + nat w) c))) /\<^sub>R real (nat w)"
      using moving_average_nth [OF w, of i "replicate n c"] i h by simp
    also have "take (nat w) (drop (Suc i) (replicate (n + nat w) c)) = replicate (nat w) c"
      using i by (simp add: min_def)
    finally show "moving_average (replicate n c) w ! i = replicate n c ! i"
      using i w by (simp add: sum_list_replicate_scaleR)
  qed
qed

section \<open>Constant sequences\<close>

text \<open>
  The lemmas of this section that speak of values (\<open>moving_average_replicate\<close> above,
  \<open>subsample_replicate\<close>, \<open>smoothen_replicate\<close>) hold for the exact averages.
\<close>

lemma concat_replicate_replicate: "concat (replicate j (replicate i x)) = replicate (j * i) x"
  by (induction j) (simp_all add: replicate_add)

lemma subsample_pad_replicate:
  assumes k: "0 < k"
  shows "subsample_pad (replicate n c) k = replicate (((n + k - 1) div k) * k) c"
proof -
  have "drop (n - 1) (replicate n c) = replicate (n - (n - 1)) c"
    by simp
  then have "subsample_pad (replicate n c) k =
      (if n mod k \<noteq> 0 then replicate (n + (k - n mod k) * (n - (n - 1))) c else replicate n c)"
    by (simp add: subsample_pad_def concat_replicate_replicate replicate_add)
  then have "\<exists>m. subsample_pad (replicate n c) k = replicate m c"
    by (cases "n mod k \<noteq> 0") (simp_all only: if_True if_False simp_thms, blast+)
  then obtain m where m: "subsample_pad (replicate n c) k = replicate m c" ..
  then have "length (subsample_pad (replicate n c) k) = m" by simp
  then have "m = ((n + k - 1) div k) * k"
    using length_subsample_pad [OF k, of "replicate n c"] by simp
  with m show ?thesis by simp
qed

lemma chunks_replicate:
  assumes k: "0 < k"
  shows "chunks k (replicate (q * k) c) = replicate q (replicate k c)"
proof -
  have "take k (drop (i * k) (replicate (q * k) c)) = replicate k c" if "i < q" for i
  proof -
    from less_imp_Suc_add [OF that] obtain d where "q = Suc (i + d)" ..
    then have "q * k - i * k = k + d * k" by (simp add: algebra_simps)
    then show ?thesis by (simp add: min_def)
  qed
  then have "map (\<lambda>i. take k (drop (i * k) (replicate (q * k) c))) [0..<q]
      = map (\<lambda>i. replicate k c) [0..<q]"
    by (intro map_cong) simp_all
  then show ?thesis
    using k by (simp add: chunks_def map_replicate_const)
qed

lemma mean_replicate: "0 < k \<Longrightarrow> mean (replicate k (c::'a::real_vector)) = c"
  by (simp add: mean_def sum_list_replicate_scaleR)

lemma subsample_replicate:
  "subsample (replicate n (c::'a::real_vector)) k =
     replicate (if k \<le> 1 then n else (n + nat k - 1) div nat k) c"
proof (cases "k \<le> 1")
  case True
  then show ?thesis by (simp add: subsample_def)
next
  case False
  then have k: "0 < nat k" by simp
  show ?thesis
    using False
    by (simp add: subsample_def subsample_pad_replicate [OF k] chunks_replicate [OF k]
        mean_replicate [OF k])
qed

lemma smoothen_replicate:
  "smoothen (replicate n (c::'a::real_vector)) w k =
     replicate (if k \<le> 1 then n else (n + nat k - 1) div nat k) c"
  by (simp only: smoothen_def moving_average_replicate subsample_replicate)

section \<open>Ranges, in exact arithmetic\<close>

text \<open>
  Each entry of the moving average is the mean of \<open>window_size\<close> entries of the padded
  input, and each entry of the subsampled sequence is the mean of one block. With exact
  numbers a mean lies between the least and the greatest entry. The source computes the
  moving average from differences of running sums of floats, whose rounding is not
  modelled here; these lemmas say nothing about it. In floats the difference of two
  running sums can lose the window altogether: the bound of this section is the one the
  source's \<^verbatim>\<open>moving_average\<close> misses.
\<close>

lemma sum_list_between:
  fixes xs :: "real list"
  assumes "\<And>x. x \<in> set xs \<Longrightarrow> lo \<le> x \<and> x \<le> hi"
  shows "real (length xs) * lo \<le> sum_list xs \<and> sum_list xs \<le> real (length xs) * hi"
  using assms
proof (induction xs)
  case Nil
  then show ?case by simp
next
  case (Cons x xs)
  from Cons.prems have "lo \<le> x" "x \<le> hi" by simp_all
  moreover from Cons have
    "real (length xs) * lo \<le> sum_list xs \<and> sum_list xs \<le> real (length xs) * hi"
    by simp
  ultimately show ?case by (simp add: algebra_simps)
qed

lemma sum_list_component:
  fixes f :: "'a::real_vector \<Rightarrow> real"
  assumes "\<And>a b. f (a + b) = f a + f b" and "f 0 = 0"
  shows "f (sum_list xs) = sum_list (map f xs)"
  by (induction xs) (simp_all add: assms)

lemma mean_between:
  fixes f :: "'a::real_vector \<Rightarrow> real"
  assumes add: "\<And>a b. f (a + b) = f a + f b" and zero: "f 0 = 0"
    and sc: "\<And>r a. f (r *\<^sub>R a) = r * f a"
    and "block \<noteq> []" and "\<And>x. x \<in> set block \<Longrightarrow> lo \<le> f x \<and> f x \<le> hi"
  shows "lo \<le> f (mean block) \<and> f (mean block) \<le> hi"
proof -
  have n: "0 < real (length block)" using assms(4) by simp
  have m: "lo \<le> x \<and> x \<le> hi" if "x \<in> set (map f block)" for x
    using that assms(5) by auto
  from sum_list_between [of "map f block" lo hi, OF m] have
    "real (length block) * lo \<le> sum_list (map f block)"
    "sum_list (map f block) \<le> real (length block) * hi"
    by simp_all
  with n show ?thesis
    by (simp add: mean_def sc sum_list_component [of f, OF add zero] field_simps)
qed

lemma moving_average_between:
  fixes f :: "'a::real_vector \<Rightarrow> real"
  assumes add: "\<And>a b. f (a + b) = f a + f b" and zero: "f 0 = 0"
    and sc: "\<And>r a. f (r *\<^sub>R a) = r * f a"
    and b: "\<And>x. x \<in> set bdata \<Longrightarrow> lo \<le> f x \<and> f x \<le> hi"
    and y: "y \<in> set (moving_average bdata w)"
  shows "lo \<le> f y \<and> f y \<le> hi"
proof (cases "w \<le> 1")
  case True
  with b y show ?thesis by (simp add: moving_average_def)
next
  case False
  then have w: "1 < w" by simp
  from y obtain i where i: "i < length bdata" and yi: "y = moving_average bdata w ! i"
    by (auto simp: in_set_conv_nth length_moving_average)
  then have ne: "bdata \<noteq> []" by auto
  define padded where
    "padded = replicate (nat (w div 2)) (hd bdata) @ bdata
              @ replicate (nat (w - w div 2)) (last bdata)"
  define window where "window = take (nat w) (drop (Suc i) padded)"
  have wsplit: "nat w = nat (w div 2) + nat (w - w div 2)"
    using w by linarith
  have len: "length padded = length bdata + nat w"
    using wsplit by (simp add: padded_def)
  have lw: "length window = nat w"
    using i len by (simp add: window_def)
  have "set padded \<subseteq> set bdata"
    using ne by (auto simp: padded_def)
  then have sub: "set window \<subseteq> set bdata"
    unfolding window_def by (meson set_drop_subset set_take_subset subset_trans)
  have "mean window = sum_list window /\<^sub>R real (nat w)"
    by (simp only: mean_def lw)
  then have "y = mean window"
    by (simp only: yi moving_average_nth [OF w i] window_def padded_def)
  moreover have "window \<noteq> []" using lw w by auto
  moreover have "\<And>x. x \<in> set window \<Longrightarrow> lo \<le> f x \<and> f x \<le> hi"
    using sub b by auto
  ultimately show ?thesis
    using mean_between [of f window lo hi, OF add zero sc] by simp
qed

lemma subsample_between:
  fixes f :: "'a::real_vector \<Rightarrow> real"
  assumes add: "\<And>a b. f (a + b) = f a + f b" and zero: "f 0 = 0"
    and sc: "\<And>r a. f (r *\<^sub>R a) = r * f a"
    and b: "\<And>x. x \<in> set bdata \<Longrightarrow> lo \<le> f x \<and> f x \<le> hi"
    and y: "y \<in> set (subsample bdata k)"
  shows "lo \<le> f y \<and> f y \<le> hi"
proof (cases "k \<le> 1")
  case True
  with b y show ?thesis by (simp add: subsample_def)
next
  case False
  then have k: "0 < nat k" by simp
  define padded where "padded = subsample_pad bdata (nat k)"
  have "set (drop (length bdata - 1) bdata) \<subseteq> set bdata"
    by (rule set_drop_subset)
  then have sp: "set padded \<subseteq> set bdata"
    by (auto simp: padded_def subsample_pad_def)
  from y False obtain i where
    i: "i < length padded div nat k" and yi: "y = mean (take (nat k) (drop (i * nat k) padded))"
    by (auto simp: subsample_def chunks_def padded_def)
  define block where "block = take (nat k) (drop (i * nat k) padded)"
  have "Suc i * nat k \<le> length padded"
  proof -
    from i have "Suc i \<le> length padded div nat k" by simp
    then have "Suc i * nat k \<le> (length padded div nat k) * nat k"
      by (rule mult_le_mono1)
    also have "\<dots> \<le> length padded" by simp
    finally show ?thesis .
  qed
  then have "length block = nat k"
    by (simp add: block_def)
  then have "block \<noteq> []" using k by auto
  moreover have "set block \<subseteq> set bdata"
    unfolding block_def using sp by (meson set_drop_subset set_take_subset subset_trans)
  then have "\<And>x. x \<in> set block \<Longrightarrow> lo \<le> f x \<and> f x \<le> hi"
    using b by auto
  ultimately show ?thesis
    using mean_between [of f block lo hi, OF add zero sc] yi by (simp add: block_def)
qed

lemma smoothen_between:
  fixes f :: "'a::real_vector \<Rightarrow> real"
  assumes add: "\<And>a b. f (a + b) = f a + f b" and zero: "f 0 = 0"
    and sc: "\<And>r a. f (r *\<^sub>R a) = r * f a"
    and b: "\<And>x. x \<in> set bdata \<Longrightarrow> lo \<le> f x \<and> f x \<le> hi"
    and y: "y \<in> set (smoothen bdata w k)"
  shows "lo \<le> f y \<and> f y \<le> hi"
proof -
  have m: "lo \<le> f x \<and> f x \<le> hi" if "x \<in> set (moving_average bdata w)" for x
    by (rule moving_average_between [of f, OF add zero sc b that])
  from y have "y \<in> set (subsample (moving_average bdata w) k)"
    by (simp add: smoothen_def)
  then show ?thesis
    using subsample_between [of f "moving_average bdata w" lo hi y k, OF add zero sc m] by blast
qed

text \<open>
  With the numbers read as reals, every entry of the smoothed pressures and every
  coordinate of the smoothed positions lies between the least and the greatest input value.
\<close>

lemma smoothen_range_exact:
  fixes bdata :: "real list"
  assumes "y \<in> set (smoothen bdata w k)"
  shows "Min (set bdata) \<le> y \<and> y \<le> Max (set bdata)"
  using smoothen_between [of "\<lambda>x. x" bdata "Min (set bdata)" "Max (set bdata)" y w k] assms
  by simp

lemma smoothen_points_range_exact:
  assumes "p \<in> set (smoothen pts w k)"
  shows "Min (px ` set pts) \<le> px p \<and> px p \<le> Max (px ` set pts)"
    and "Min (py ` set pts) \<le> py p \<and> py p \<le> Max (py ` set pts)"
  using smoothen_between [of px pts "Min (px ` set pts)" "Max (px ` set pts)" p w k]
    smoothen_between [of py pts "Min (py ` set pts)" "Max (py ` set pts)" p w k] assms
  by (simp_all add: plus_point_def scaleR_point_def zero_point_def)

section \<open>Decoding\<close>

lemma decode_malformed:
  "length (points row) mod 6 \<noteq> 0 \<Longrightarrow> decode row = Inl ValueError"
  by (simp add: decode_def reshape_rows_def reshape_3_3_def)

lemma decode_Inr:
  assumes "decode row = Inr (pts, pressure)"
  shows "length (matrixValues row) = 9" and "length (points row) mod 6 = 0"
    and "pts = map (project (chunks 3 (matrixValues row))) (chunks 6 (points row))"
    and "pressure = map (\<lambda>r. (r ! 2 / pressure_norm) powr pressure_pow) (chunks 6 (points row))"
  using assms
  by (auto simp: decode_def reshape_rows_def reshape_3_3_def split: if_splits)

lemma decode_lengths:
  assumes "decode row = Inr (pts, pressure)"
  shows "length pts = length (points row) div 6" and "length pressure = length (points row) div 6"
  using decode_Inr(3,4) [OF assms] by (simp_all add: length_chunks)

lemma decode_well_formed:
  assumes "length (matrixValues row) = 9" and "length (points row) mod 6 = 0"
  shows "decode row =
    Inr (map (project (chunks 3 (matrixValues row))) (chunks 6 (points row)),
         map (\<lambda>r. (r ! 2 / pressure_norm) powr pressure_pow) (chunks 6 (points row)))"
  using assms by (simp add: decode_def reshape_rows_def reshape_3_3_def)

section \<open>The sample loop\<close>

lemma draw_loop_Inr:
  "(\<And>r. r \<in> set rs \<Longrightarrow> step r = Inr (f r)) \<Longrightarrow> draw_loop step rs = Inr (concat (map f rs))"
  by (induction rs) simp_all

lemma draw_loop_fixed_width:
  "draw_loop (draw_step False thick pts pressure) [0..<n] =
     Inr (concat (map (\<lambda>r. if r = 0 then [move_to (px (pts ! r)) (py (pts ! r))]
                              else [line_to (px (pts ! r)) (py (pts ! r))]) [0..<n]))"
  by (rule draw_loop_Inr) (simp add: draw_step_def)

lemma draw_loop_pressure:
  assumes "n \<le> length pressure"
  shows "draw_loop (draw_step True thick pts pressure) [0..<n] =
     Inr (concat (map (\<lambda>r.
        set_line_width (max (thick * width_scale * pressure ! r) (1 / 10))
        # (if r = 0 then [move_to (px (pts ! r)) (py (pts ! r))]
           else [line_to (px (pts ! r)) (py (pts ! r)), stroke,
                 move_to (px (pts ! r)) (py (pts ! r))])) [0..<n]))"
  using assms by (intro draw_loop_Inr) (auto simp: draw_step_def)

section \<open>Paint state\<close>

lemma set_paint_ops:
  "fst (set_paint st row) =
     (if prev_thickness st \<noteq> thickness row
      then [stroke, set_line_width (thickness row * width_scale)] else [])
     @ (if color_bytes (color row) \<noteq> prev_color st
        then [stroke,
              set_source_rgb (real_of_int (drop_bit 16 (color row) AND 255) / 255)
                (real_of_int (drop_bit 8 (color row) AND 255) / 255)
                (real_of_int (color row AND 255) / 255)]
        else [])"
  by (simp add: set_paint_def Let_def color_bytes_def)

lemma set_paint_state:
  "snd (set_paint st row) =
     \<lparr>prev_color = color_bytes (color row), prev_thickness = thickness row\<rparr>"
  by (cases st) (simp add: set_paint_def Let_def)

lemma render_row_Inr:
  assumes "decode row = Inr (pts, pressure)"
  shows "render_row st row =
    (case draw_loop
            (draw_step (shapeType row = 5) (thickness row)
               (smoothen (map (\<lambda>p. scale *\<^sub>R p) pts) average_win_size n_subsample)
               (smoothen pressure average_win_size n_subsample))
            [0..<length (smoothen (map (\<lambda>p. scale *\<^sub>R p) pts) average_win_size n_subsample)] of
       Inl e \<Rightarrow> Inl e
     | Inr ops3 \<Rightarrow> Inr (fst (set_paint st row) @ ops3, snd (set_paint st row)))"
  using assms by (simp add: render_row_def Let_def enable_pressure_def case_prod_beta)

lemma smoothed_lengths:
  assumes "decode row = Inr (pts, pressure)"
  shows "length (smoothen (map f pts) w k) = length (smoothen pressure w k)"
  using decode_lengths [OF assms] by (simp add: length_smoothen)


lemma render_row_fixed_width:
  assumes "decode row = Inr (pts, pressure)" and "shapeType row \<noteq> 5"
  shows "render_row st row =
    Inr (fst (set_paint st row)
         @ concat (map (\<lambda>r.
             if r = 0
             then [move_to (px (smoothen (map (\<lambda>p. scale *\<^sub>R p) pts) average_win_size n_subsample ! r))
                     (py (smoothen (map (\<lambda>p. scale *\<^sub>R p) pts) average_win_size n_subsample ! r))]
             else [line_to (px (smoothen (map (\<lambda>p. scale *\<^sub>R p) pts) average_win_size n_subsample ! r))
                     (py (smoothen (map (\<lambda>p. scale *\<^sub>R p) pts) average_win_size n_subsample ! r))])
           [0..<length (smoothen (map (\<lambda>p. scale *\<^sub>R p) pts) average_win_size n_subsample)]),
         snd (set_paint st row))"
  using assms(2) by (simp add: render_row_Inr [OF assms(1)] draw_loop_fixed_width)

lemma render_row_pressure:
  assumes "decode row = Inr (pts, pressure)" and "shapeType row = 5"
  shows "render_row st row =
    Inr (fst (set_paint st row)
         @ concat (map (\<lambda>r.
             set_line_width
               (max (thickness row * width_scale
                     * smoothen pressure average_win_size n_subsample ! r) (1 / 10))
             # (if r = 0
                then [move_to (px (smoothen (map (\<lambda>p. scale *\<^sub>R p) pts) average_win_size n_subsample ! r))
                        (py (smoothen (map (\<lambda>p. scale *\<^sub>R p) pts) average_win_size n_subsample ! r))]
                else [line_to (px (smoothen (map (\<lambda>p. scale *\<^sub>R p) pts) average_win_size n_subsample ! r))
                        (py (smoothen (map (\<lambda>p. scale *\<^sub>R p) pts) average_win_size n_subsample ! r)),
                      stroke,
                      move_to (px (smoothen (map (\<lambda>p. scale *\<^sub>R p) pts) average_win_size n_subsample ! r))
                        (py (smoothen (map (\<lambda>p. scale *\<^sub>R p) pts) average_win_size n_subsample ! r))]))
           [0..<length (smoothen (map (\<lambda>p. scale *\<^sub>R p) pts) average_win_size n_subsample)]),
         snd (set_paint st row))"
proof -
  have "length (smoothen (map (\<lambda>p. scale *\<^sub>R p) pts) average_win_size n_subsample)
      \<le> length (smoothen pressure average_win_size n_subsample)"
    by (simp add: smoothed_lengths [OF assms(1)])
  then show ?thesis
    using assms(2) by (simp add: render_row_Inr [OF assms(1)] draw_loop_pressure)
qed

lemma render_row_state:
  "render_row st row = Inr (ops, st') \<Longrightarrow>
   st' = \<lparr>prev_color = color_bytes (color row), prev_thickness = thickness row\<rparr>"
  by (auto simp: render_row_def Let_def case_prod_beta set_paint_state
      split: sum.splits)

lemma render_rows_state:
  "render_rows st rows = Inr (ops, st') \<Longrightarrow> rows \<noteq> [] \<Longrightarrow>
   st' = \<lparr>prev_color = color_bytes (color (last rows)), prev_thickness = thickness (last rows)\<rparr>"
proof (induction rows arbitrary: st ops)
  case Nil
  then show ?case by simp
next
  case (Cons row rows)
  from Cons.prems(1) obtain ops1 st1 ops2 where
    r1: "render_row st row = Inr (ops1, st1)" and
    r2: "render_rows st1 rows = Inr (ops2, st')"
    by (auto split: sum.splits)
  show ?case
  proof (cases "rows = []")
    case True
    with r2 have "st' = st1" by simp
    with render_row_state [OF r1] True show ?thesis by simp
  next
    case False
    with Cons.IH [OF r2] show ?thesis by simp
  qed
qed

lemma draw_loop_walk:
  assumes "has_pressure \<Longrightarrow> length pts \<le> length pressure"
  shows "draw_loop (draw_step has_pressure thick pts pressure) [0..<length pts] =
     Inr (walk has_pressure thick pts pressure)"
  unfolding walk_def using assms by (intro draw_loop_Inr) (auto simp: draw_step_def)

lemma render_row_walk:
  assumes "decode row = Inr (pts, pressure)"
  shows "render_row st row =
    Inr (fst (set_paint st row)
         @ walk (shapeType row = 5) (thickness row)
             (smoothen (map (\<lambda>p. scale *\<^sub>R p) pts) average_win_size n_subsample)
             (smoothen pressure average_win_size n_subsample),
         snd (set_paint st row))"
proof -
  have "length (smoothen (map (\<lambda>p. scale *\<^sub>R p) pts) average_win_size n_subsample)
      \<le> length (smoothen pressure average_win_size n_subsample)"
    by (simp add: smoothed_lengths [OF assms])
  then show ?thesis
    by (simp add: render_row_Inr [OF assms] draw_loop_walk)
qed

lemma render_row_decodes:
  "render_row st row = Inr (ops, st') \<Longrightarrow> \<exists>pts pressure. decode row = Inr (pts, pressure)"
  by (auto simp: render_row_def split: sum.splits)

lemma source_rgbs_append: "source_rgbs (xs @ ys) = source_rgbs xs @ source_rgbs ys"
  by (induction xs rule: source_rgbs.induct) simp_all

lemma source_rgbs_concat:
  "(\<And>r. r \<in> set rs \<Longrightarrow> source_rgbs (f r) = []) \<Longrightarrow> source_rgbs (concat (map f rs)) = []"
  by (induction rs) (simp_all add: source_rgbs_append)

lemma source_rgbs_walk: "source_rgbs (walk has_pressure thick pts pressure) = []"
  unfolding walk_def by (rule source_rgbs_concat) simp

lemma source_rgbs_set_paint:
  "source_rgbs (fst (set_paint st row)) =
     (if color_bytes (color row) \<noteq> prev_color st
      then [(real_of_int (drop_bit 16 (color row) AND 255) / 255,
             real_of_int (drop_bit 8 (color row) AND 255) / 255,
             real_of_int (color row AND 255) / 255)]
      else [])"
  by (simp add: set_paint_ops)

section \<open>The sample strokes, evaluated\<close>

lemma decode_blue_stroke:
  "decode blue_stroke = Inr ([Point 0 0, Point 1 1, Point 2 2], [0, 0, 0])"
proof -
  have m: "chunks 3 (matrixValues blue_stroke) = [[1, 0, 0], [0, 1, 0], [0, 0, 1]]"
    unfolding blue_stroke_def by code_simp
  have d: "chunks 6 (points blue_stroke) =
    [[0, 0, 0, 0, 0, 0], [1, 1, 0, 0, 0, 0], [2, 2, 0, 0, 0, 0]]"
    unfolding blue_stroke_def by code_simp
  have l: "length (matrixValues blue_stroke) = 9" "length (points blue_stroke) mod 6 = 0"
    by (simp_all add: blue_stroke_def)
  show ?thesis
    unfolding decode_well_formed [OF l] m d
    by (simp add: project_def pressure_norm_def pressure_pow_def)
qed

lemma decode_pen_stroke:
  "decode pen_stroke =
     Inr ([Point 0 0, Point (1 / 8) 0, Point (1 / 4) 0, Point (3 / 8) 0, Point (1 / 2) 0],
          [1, 1, 1, 0, 0])"
proof -
  have m: "chunks 3 (matrixValues pen_stroke) = [[1, 0, 0], [0, 1, 0], [0, 0, 1]]"
    unfolding pen_stroke_def by code_simp
  have d: "chunks 6 (points pen_stroke) =
    [[0, 0, 1000, 0, 0, 0], [1 / 8, 0, 1000, 0, 0, 0], [1 / 4, 0, 1000, 0, 0, 0],
     [3 / 8, 0, 0, 0, 0, 0], [1 / 2, 0, 0, 0, 0, 0]]"
    unfolding pen_stroke_def by code_simp
  have l: "length (matrixValues pen_stroke) = 9" "length (points pen_stroke) mod 6 = 0"
    by (simp_all add: pen_stroke_def)
  show ?thesis
    unfolding decode_well_formed [OF l] m d
    by (simp add: project_def pressure_norm_def pressure_pow_def)
qed

lemma smoothen_blue_points:
  "smoothen (map (\<lambda>p. scale *\<^sub>R p) [Point 0 0, Point 1 1, Point 2 2])
     average_win_size n_subsample = [Point 792 792, Point (5148 / 5) (5148 / 5)]"
  by code_simp

lemma smoothen_pen_points:
  "smoothen (map (\<lambda>p. scale *\<^sub>R p)
       [Point 0 0, Point (1 / 8) 0, Point (1 / 4) 0, Point (3 / 8) 0, Point (1 / 2) 0])
     average_win_size n_subsample = [Point (792 / 5) 0, Point (1188 / 5) 0, Point 297 0]"
  by code_simp

lemma smoothen_pen_pressure:
  "smoothen [1, 1, 1, 0, 0 :: real] average_win_size n_subsample = [13 / 20, 9 / 20, 3 / 10]"
  by code_simp

lemma blue_stroke_fields:
  "shapeType blue_stroke = 1" "thickness blue_stroke = 2" "color blue_stroke = 255"
  by (simp_all add: blue_stroke_def)

lemma pen_stroke_fields:
  "shapeType pen_stroke = 5" "thickness pen_stroke = 2" "color pen_stroke = 255"
  by (simp_all add: pen_stroke_def)

lemma color_bytes_255: "color_bytes 255 = (255, 0, 0)"
  by code_simp

lemma set_paint_initial_blue:
  "fst (set_paint initial_paint blue_stroke) =
     [stroke, set_line_width (6 / 10), stroke, set_source_rgb 0 0 1]"
  unfolding blue_stroke_def by code_simp

lemma set_paint_initial_pen:
  "fst (set_paint initial_paint pen_stroke) =
     [stroke, set_line_width (6 / 10), stroke, set_source_rgb 0 0 1]"
  unfolding pen_stroke_def by code_simp

lemma set_paint_same_blue:
  "fst (set_paint \<lparr>prev_color = (255, 0, 0), prev_thickness = 2\<rparr> blue_stroke) = []"
  unfolding blue_stroke_def by code_simp

lemma render_row_blue_stroke:
  "render_row initial_paint blue_stroke =
     Inr ([stroke, set_line_width (6 / 10), stroke, set_source_rgb 0 0 1,
           move_to 792 792, line_to (5148 / 5) (5148 / 5)],
          \<lparr>prev_color = (255, 0, 0), prev_thickness = 2\<rparr>)"
proof -
  have ne: "shapeType blue_stroke \<noteq> 5" by (simp add: blue_stroke_fields)
  note r = render_row_fixed_width [OF decode_blue_stroke ne, of initial_paint,
      unfolded smoothen_blue_points set_paint_initial_blue set_paint_state
        blue_stroke_fields color_bytes_255]
  show ?thesis
    unfolding r by (simp add: eval_nat_numeral)
qed

lemma render_row_blue_stroke_again:
  "render_row \<lparr>prev_color = (255, 0, 0), prev_thickness = 2\<rparr> blue_stroke =
     Inr ([move_to 792 792, line_to (5148 / 5) (5148 / 5)],
          \<lparr>prev_color = (255, 0, 0), prev_thickness = 2\<rparr>)"
proof -
  have ne: "shapeType blue_stroke \<noteq> 5" by (simp add: blue_stroke_fields)
  note r = render_row_fixed_width [OF decode_blue_stroke ne,
      of "\<lparr>prev_color = (255, 0, 0), prev_thickness = 2\<rparr>",
      unfolded smoothen_blue_points set_paint_same_blue set_paint_state
        blue_stroke_fields color_bytes_255]
  show ?thesis
    unfolding r by (simp add: eval_nat_numeral)
qed

lemma render_row_pen_stroke:
  "render_row initial_paint pen_stroke =
     Inr ([stroke, set_line_width (6 / 10), stroke, set_source_rgb 0 0 1,
           set_line_width (39 / 100), move_to (792 / 5) 0,
           set_line_width (27 / 100), line_to (1188 / 5) 0, stroke, move_to (1188 / 5) 0,
           set_line_width (9 / 50), line_to 297 0, stroke, move_to 297 0],
          \<lparr>prev_color = (255, 0, 0), prev_thickness = 2\<rparr>)"
proof -
  note r = render_row_pressure [OF decode_pen_stroke pen_stroke_fields(1), of initial_paint,
      unfolded smoothen_pen_points smoothen_pen_pressure set_paint_initial_pen set_paint_state
        pen_stroke_fields color_bytes_255]
  show ?thesis
    unfolding r by (simp add: width_scale_def eval_nat_numeral)
qed

lemma render_page_blue_stroke:
  "render_page initial_paint [blue_stroke] =
     Inr ([stroke, set_line_width (6 / 10), stroke, set_source_rgb 0 0 1,
           move_to 792 792, line_to (5148 / 5) (5148 / 5), stroke, show_page],
          \<lparr>prev_color = (255, 0, 0), prev_thickness = 2\<rparr>)"
  by (simp add: render_page_def render_row_blue_stroke)

lemma render_page_blue_stroke_again:
  "render_page \<lparr>prev_color = (255, 0, 0), prev_thickness = 2\<rparr> [blue_stroke] =
     Inr ([move_to 792 792, line_to (5148 / 5) (5148 / 5), stroke, show_page],
          \<lparr>prev_color = (255, 0, 0), prev_thickness = 2\<rparr>)"
  by (simp add: render_page_def render_row_blue_stroke_again)

lemma render_page_pen_stroke:
  "render_page initial_paint [pen_stroke] =
     Inr ([stroke, set_line_width (6 / 10), stroke, set_source_rgb 0 0 1,
           set_line_width (39 / 100), move_to (792 / 5) 0,
           set_line_width (27 / 100), line_to (1188 / 5) 0, stroke, move_to (1188 / 5) 0,
           set_line_width (9 / 50), line_to 297 0, stroke, move_to 297 0,
           stroke, show_page],
          \<lparr>prev_color = (255, 0, 0), prev_thickness = 2\<rparr>)"
  by (simp add: render_page_def render_row_pen_stroke)

lemma bytes_of_255:
  "(255 :: int) AND 255 = 255" "drop_bit 8 (255 :: int) AND 255 = 0"
  "drop_bit 16 (255 :: int) AND 255 = 0"
  by code_simp+

lemma walk_fixed_width_pair:
  "walk False thick [a, b] pressure = [move_to (px a) (py a), line_to (px b) (py b)]"
  by (simp add: walk_def eval_nat_numeral)

lemma set_paint_same:
  "fst (set_paint \<lparr>prev_color = color_bytes (color row), prev_thickness = thickness row\<rparr> row) = []"
  by (simp add: set_paint_ops)

section \<open>The walk of a pressure stroke\<close>

lemma walk_pressure_split:
  assumes "pts \<noteq> []"
  shows "walk True thick pts pressure =
    set_line_width (max (thick * width_scale * pressure ! 0) (1 / 10))
    # move_to (px (pts ! 0)) (py (pts ! 0))
    # concat (map (\<lambda>r.
        [set_line_width (max (thick * width_scale * pressure ! r) (1 / 10)),
         line_to (px (pts ! r)) (py (pts ! r)), stroke,
         move_to (px (pts ! r)) (py (pts ! r))]) [Suc 0..<length pts])"
proof -
  define F where "F = (\<lambda>r.
        (if True
         then [set_line_width (max (thick * width_scale * pressure ! r) (1 / 10))]
         else [])
        @ (if r = 0 then [move_to (px (pts ! r)) (py (pts ! r))]
           else line_to (px (pts ! r)) (py (pts ! r))
                # (if True then [stroke, move_to (px (pts ! r)) (py (pts ! r))]
                   else [])))"
  have F0: "F 0 = [set_line_width (max (thick * width_scale * pressure ! 0) (1 / 10)),
      move_to (px (pts ! 0)) (py (pts ! 0))]"
    by (simp add: F_def)
  have Fr: "F r = [set_line_width (max (thick * width_scale * pressure ! r) (1 / 10)),
         line_to (px (pts ! r)) (py (pts ! r)), stroke,
         move_to (px (pts ! r)) (py (pts ! r))]" if "r \<noteq> 0" for r
    using that by (simp add: F_def)
  from assms have u: "[0..<length pts] = 0 # [Suc 0..<length pts]"
    by (simp add: upt_conv_Cons)
  have m: "map F [Suc 0..<length pts] = map (\<lambda>r.
        [set_line_width (max (thick * width_scale * pressure ! r) (1 / 10)),
         line_to (px (pts ! r)) (py (pts ! r)), stroke,
         move_to (px (pts ! r)) (py (pts ! r))]) [Suc 0..<length pts]"
    by (rule map_cong) (simp_all add: Fr)
  have "walk True thick pts pressure = concat (map F [0..<length pts])"
    by (simp only: walk_def F_def)
  also have "\<dots> = F 0 @ concat (map F [Suc 0..<length pts])"
    by (simp only: u list.map concat.simps)
  finally show ?thesis
    by (simp only: m F0 append.simps)
qed

lemma blocks_regroup:
  "M 0 # concat (map (\<lambda>r. [S r, L r, K, M r]) [Suc 0..<Suc n]) =
   concat (map (\<lambda>r. [M (r - 1), S r, L r, K]) [Suc 0..<Suc n]) @ [M n]"
  by (induction n) simp_all

lemma drop_blocks:
  assumes "\<And>r. length (h r) = m"
  shows "drop (m * j) (concat (map h [a..<b])) = concat (map h [a + j..<b])"
proof (induction j)
  case 0
  then show ?case by simp
next
  case (Suc j)
  have "drop (m * Suc j) (concat (map h [a..<b])) = drop m (concat (map h [a + j..<b]))"
    using Suc by (simp add: add.commute drop_drop [symmetric] del: drop_drop)
  also have "\<dots> = concat (map h [a + Suc j..<b])"
  proof (cases "a + j < b")
    case True
    then have "[a + j..<b] = (a + j) # [a + Suc j..<b]"
      by (simp add: upt_conv_Cons)
    then show ?thesis by (simp add: assms)
  next
    case False
    then show ?thesis by simp
  qed
  finally show ?case .
qed

lemma take_first_block:
  assumes "a < b" and "length (h a) = m"
  shows "take m (concat (map h [a..<b]) @ rest) = h a"
proof -
  from assms(1) have "[a..<b] = a # [Suc a..<b]"
    by (simp add: upt_conv_Cons)
  then show ?thesis using assms(2) by simp
qed

lemma count_strokes_blocks:
  "length (filter is_stroke (concat (map (\<lambda>r. [set_line_width (w r), line_to (x r) (y r), stroke,
      move_to (x r) (y r)]) rs))) = length rs"
  by (induction rs) (simp_all add: is_stroke_def)

lemma count_line_to_blocks:
  "length (filter is_line_to (concat (map (\<lambda>r. [set_line_width (w r), line_to (x r) (y r), stroke,
      move_to (x r) (y r)]) rs))) = length rs"
  by (induction rs) (simp_all add: is_line_to_def)

section \<open>Flushes\<close>

lemma flushed_append:
  "flushed b (xs @ ys) =
     (flushed b xs \<and> flushed (if xs = [] then b else is_stroke (last xs)) ys)"
  by (induction xs arbitrary: b) auto

lemma flushed_no_sets: "(\<And>c. c \<in> set xs \<Longrightarrow> \<not> is_paint_set c) \<Longrightarrow> flushed b xs"
  by (induction xs arbitrary: b) auto

lemma flushed_between: "flushed a ops \<Longrightarrow> (a \<Longrightarrow> \<not> p) \<Longrightarrow> flush_between_sets p ops"
proof (induction ops arbitrary: a p)
  case Nil
  then show ?case by simp
next
  case (Cons c cs)
  show ?case
  proof (cases "is_paint_set c")
    case True
    then have ns: "\<not> is_stroke c"
      by (cases c) (simp_all add: is_paint_set_def is_stroke_def)
    from Cons.prems True have a by simp
    with Cons.prems have "\<not> p" by simp
    moreover have "flush_between_sets True cs"
      using Cons.prems(1) ns by (intro Cons.IH [of "is_stroke c"]) simp_all
    ultimately show ?thesis using True by simp
  next
    case False
    have "flush_between_sets (if is_stroke c then False else p) cs"
      using Cons.prems(1) by (intro Cons.IH [of "is_stroke c"]) simp_all
    with False show ?thesis by simp
  qed
qed

lemma walk_fixed_no_sets:
  "c \<in> set (walk False thick pts pressure) \<Longrightarrow> \<not> is_paint_set c \<and> \<not> is_stroke c"
  by (auto simp: walk_def is_paint_set_def is_stroke_def split: if_splits)

lemma flushed_set_paint: "flushed b (fst (set_paint st row))"
  by (simp add: set_paint_ops is_paint_set_def is_stroke_def)

lemma count_set_paint:
  "length (filter is_stroke (fst (set_paint st row)))
     = length (filter is_paint_set (fst (set_paint st row)))"
  by (simp add: set_paint_ops is_paint_set_def is_stroke_def)

lemma filter_none: "(\<And>c. c \<in> set xs \<Longrightarrow> \<not> P c) \<Longrightarrow> filter P xs = []"
  by (induction xs) auto

lemma render_row_fixed_flushed:
  assumes "render_row st row = Inr (ops, st')" and "shapeType row \<noteq> 5"
  shows "flushed b ops"
    and "length (filter is_stroke ops) = length (filter is_paint_set ops)"
proof -
  from render_row_decodes [OF assms(1)] obtain pts pressure where
    d: "decode row = Inr (pts, pressure)" by blast
  define calls where
    "calls = walk False (thickness row)
       (smoothen (map (\<lambda>p. scale *\<^sub>R p) pts) average_win_size n_subsample)
       (smoothen pressure average_win_size n_subsample)"
  have o: "ops = fst (set_paint st row) @ calls"
    using assms by (simp add: render_row_walk [OF d] calls_def)
  have n: "\<not> is_paint_set c \<and> \<not> is_stroke c" if "c \<in> set calls" for c
    using that unfolding calls_def by (rule walk_fixed_no_sets)
  show "flushed b ops"
    unfolding o flushed_append using n by (simp add: flushed_set_paint flushed_no_sets)
  have "filter is_stroke calls = []" "filter is_paint_set calls = []"
    using n by (simp_all add: filter_none)
  then show "length (filter is_stroke ops) = length (filter is_paint_set ops)"
    unfolding o by (simp add: count_set_paint)
qed

lemma render_rows_fixed_flushed:
  assumes "render_rows st rows = Inr (ops, st')" and "\<And>row. row \<in> set rows \<Longrightarrow> shapeType row \<noteq> 5"
  shows "flushed b ops \<and> length (filter is_stroke ops) = length (filter is_paint_set ops)"
  using assms
proof (induction rows arbitrary: st ops b)
  case Nil
  then show ?case by simp
next
  case (Cons row rows)
  from Cons.prems(1) obtain ops1 st1 ops2 where
    r1: "render_row st row = Inr (ops1, st1)" and
    r2: "render_rows st1 rows = Inr (ops2, st')" and
    o: "ops = ops1 @ ops2"
    by (auto split: sum.splits)
  have ne: "shapeType row \<noteq> 5" using Cons.prems(2) by simp
  have ih: "flushed b' ops2 \<and> length (filter is_stroke ops2) = length (filter is_paint_set ops2)"
    for b'
    using Cons.prems(2) by (intro Cons.IH [OF r2]) simp
  show ?case
    unfolding o flushed_append
    using render_row_fixed_flushed [OF r1 ne] ih by simp
qed

section \<open>Pages\<close>

lemma render_pages_append:
  "render_pages st (ps @ qs) =
     (case render_pages st ps of
        Inl e \<Rightarrow> Inl e
      | Inr (ops, st') \<Rightarrow>
          (case render_pages st' qs of
             Inl e \<Rightarrow> Inl e
           | Inr (ops', st'') \<Rightarrow> Inr (ops @ ops', st'')))"
  by (induction ps arbitrary: st) (auto split: sum.splits)

lemma render_page_state:
  assumes "render_page st page = Inr (ops, st')"
  shows "st' = (if page = [] then st
                else \<lparr>prev_color = color_bytes (color (last page)),
                      prev_thickness = thickness (last page)\<rparr>)"
proof -
  from assms obtain ops0 where rows: "render_rows st page = Inr (ops0, st')"
    by (auto simp: render_page_def split: sum.splits)
  show ?thesis
  proof (cases "page = []")
    case True
    with rows show ?thesis by simp
  next
    case False
    with render_rows_state [OF rows] show ?thesis by simp
  qed
qed

lemma render_pages_state:
  "render_pages st pages = Inr (ops, st') \<Longrightarrow>
   st' = (if concat pages = [] then st
          else \<lparr>prev_color = color_bytes (color (last (concat pages))),
                prev_thickness = thickness (last (concat pages))\<rparr>)"
proof (induction pages arbitrary: st ops)
  case Nil
  then show ?case by simp
next
  case (Cons page pages)
  from Cons.prems obtain ops1 st1 ops2 where
    p: "render_page st page = Inr (ops1, st1)" and
    ps: "render_pages st1 pages = Inr (ops2, st')"
    by (auto split: sum.splits)
  note s1 = render_page_state [OF p]
  note s2 = Cons.IH [OF ps]
  show ?case
  proof (cases "concat pages = []")
    case True
    with s1 s2 show ?thesis by (simp del: concat_eq_Nil_conv)
  next
    case False
    with s2 show ?thesis by (simp del: concat_eq_Nil_conv)
  qed
qed

lemma render_page_first:
  assumes "render_page st (row # rows) = Inr (ops, st2)"
  shows "\<exists>ops1 st1 rest.
    render_row st row = Inr (ops1, st1) \<and> render_page st1 rows = Inr (rest, st2)
    \<and> ops = ops1 @ rest"
proof -
  from assms obtain ops0 where
    rs: "render_rows st (row # rows) = Inr (ops0, st2)" and o: "ops = ops0 @ [stroke, show_page]"
    by (auto simp: render_page_def split: sum.splits)
  from rs obtain ops1 st1 opsr where
    r: "render_row st row = Inr (ops1, st1)" and
    rr: "render_rows st1 rows = Inr (opsr, st2)" and o0: "ops0 = ops1 @ opsr"
    by (auto split: sum.splits)
  from rr have "render_page st1 rows = Inr (opsr @ [stroke, show_page], st2)"
    by (simp add: render_page_def)
  with r o o0 show ?thesis by simp
qed

lemma render_pages_two_blue:
  "render_pages initial_paint [[blue_stroke], [blue_stroke]] =
     Inr ([stroke, set_line_width (6 / 10), stroke, set_source_rgb 0 0 1,
           move_to 792 792, line_to (5148 / 5) (5148 / 5), stroke, show_page,
           move_to 792 792, line_to (5148 / 5) (5148 / 5), stroke, show_page],
          \<lparr>prev_color = (255, 0, 0), prev_thickness = 2\<rparr>)"
  by (simp add: render_page_blue_stroke render_page_blue_stroke_again)

lemma set_paint_same_pen:
  "fst (set_paint \<lparr>prev_color = (255, 0, 0), prev_thickness = 2\<rparr> pen_stroke) = []"
  unfolding pen_stroke_def by code_simp

lemma render_row_pen_stroke_again:
  "render_row \<lparr>prev_color = (255, 0, 0), prev_thickness = 2\<rparr> pen_stroke =
     Inr ([set_line_width (39 / 100), move_to (792 / 5) 0,
           set_line_width (27 / 100), line_to (1188 / 5) 0, stroke, move_to (1188 / 5) 0,
           set_line_width (9 / 50), line_to 297 0, stroke, move_to 297 0],
          \<lparr>prev_color = (255, 0, 0), prev_thickness = 2\<rparr>)"
proof -
  note r = render_row_pressure [OF decode_pen_stroke pen_stroke_fields(1),
      of "\<lparr>prev_color = (255, 0, 0), prev_thickness = 2\<rparr>",
      unfolded smoothen_pen_points smoothen_pen_pressure set_paint_same_pen set_paint_state
        pen_stroke_fields color_bytes_255]
  show ?thesis
    unfolding r by (simp add: width_scale_def eval_nat_numeral)
qed

section \<open>Properties of the smoothing\<close>

text \<open>
  C8. For every non-empty input and every window size of at least 1, the moving average
  returns a sequence of exactly the length of its input.
\<close>

theorem moving_average_length:
  "bdata \<noteq> [] \<Longrightarrow> 1 \<le> window_size \<Longrightarrow>
   length (moving_average bdata window_size) = length bdata"
  by (rule length_moving_average)

theorem moving_average_length_witness:
  "[3, 5, 4 :: real] \<noteq> [] \<and> (1::int) \<le> 10 \<and>
   length (moving_average [3, 5, 4 :: real] 10) = length [3, 5, 4 :: real]"
  using moving_average_length [of "[3, 5, 4 :: real]" 10] by simp




section \<open>Properties of the renderer\<close>

text \<open>
  C1. The red channel sent to the canvas is not the lowest byte of the packed colour over
  255: for the packed colour \<open>0x0000FF\<close> the lowest byte over 255 is 1, and the red
  channel set on the canvas is 0.
\<close>

theorem red_channel_counterexample:
  "map fst (source_rgbs (canvas_calls (render_row initial_paint blue_stroke))) = [0]
   \<and> real_of_int (color blue_stroke AND 255) / 255 = 1"
  by (simp add: render_row_blue_stroke canvas_calls_def blue_stroke_fields)

text \<open>
  C1, as amended. Whenever the three low bytes of the packed colour differ from the tracked
  colour, the stroke sets the canvas colour exactly once, to red = byte 2 over 255,
  green = byte 1 over 255 and blue = byte 0 over 255 (byte 0 the least significant);
  otherwise it sets no colour.
\<close>

theorem color_channels:
  assumes "render_row st row = Inr (ops, st')"
  shows "source_rgbs ops =
     (if color_bytes (color row) \<noteq> prev_color st
      then [(real_of_int (drop_bit 16 (color row) AND 255) / 255,
             real_of_int (drop_bit 8 (color row) AND 255) / 255,
             real_of_int (color row AND 255) / 255)]
      else [])"
proof -
  from render_row_decodes [OF assms] obtain pts pressure where
    "decode row = Inr (pts, pressure)" by blast
  from render_row_walk [OF this, of st] assms show ?thesis
    by (auto simp: source_rgbs_append source_rgbs_walk source_rgbs_set_paint)
qed

theorem color_channels_witness:
  "render_row initial_paint blue_stroke =
     Inr ([stroke, set_line_width (6 / 10), stroke, set_source_rgb 0 0 1,
           move_to 792 792, line_to (5148 / 5) (5148 / 5)],
          \<lparr>prev_color = (255, 0, 0), prev_thickness = 2\<rparr>)
   \<and> source_rgbs [stroke, set_line_width (6 / 10), stroke, set_source_rgb 0 0 1,
        move_to 792 792, line_to (5148 / 5) (5148 / 5)] =
       [(real_of_int (drop_bit 16 (color blue_stroke) AND 255) / 255,
         real_of_int (drop_bit 8 (color blue_stroke) AND 255) / 255,
         real_of_int (color blue_stroke AND 255) / 255)]"
proof -
  have p: "color_bytes (color blue_stroke) \<noteq> prev_color initial_paint"
    by (simp add: blue_stroke_fields color_bytes_255 initial_paint_def)
  from color_channels [OF render_row_blue_stroke] p render_row_blue_stroke
  show ?thesis by simp
qed

text \<open>
  C6. A point buffer whose number of floats is not a multiple of 6 is rejected with
  \<^verbatim>\<open>ValueError\<close>: decoding returns no samples, and the stroke is not rendered.
\<close>

theorem malformed_buffer_rejected:
  "length (points row) mod 6 \<noteq> 0 \<Longrightarrow>
   decode row = Inl ValueError \<and> render_row st row = Inl ValueError"
  by (simp add: decode_malformed render_row_def)

theorem malformed_buffer_rejected_witness:
  "length (points torn_stroke) mod 6 \<noteq> 0 \<and> decode torn_stroke = Inl ValueError
   \<and> render_row initial_paint torn_stroke = Inl ValueError"
proof -
  have h: "length (points torn_stroke) mod 6 \<noteq> 0"
    by (simp add: torn_stroke_def)
  from malformed_buffer_rejected [OF h, of initial_paint] h show ?thesis by simp
qed

text \<open>
  C2. The scenario does not give two \<open>line_to\<close> calls and a single \<open>stroke\<close>: the three
  samples are averaged and subsampled into two points, so there is one \<open>line_to\<close>, and
  both the change of thickness and the change of colour flush before the final \<open>stroke\<close>.
\<close>

theorem single_stroke_counterexample:
  "length (filter is_line_to (canvas_calls (render_page initial_paint [blue_stroke]))) = 1
   \<and> length (filter is_stroke (canvas_calls (render_page initial_paint [blue_stroke]))) = 3"
  by (simp add: render_page_blue_stroke canvas_calls_def is_line_to_def is_stroke_def)

text \<open>
  C2, as amended. A page with a single stroke of packed colour \<open>0x0000FF\<close>, thickness 2,
  shape type 1 and three samples, rendered from the initial paint values, makes exactly
  these calls: \<open>stroke\<close>, line width 0.6, \<open>stroke\<close>, colour (0, 0, 1), one \<open>move_to\<close>, one
  \<open>line_to\<close>, the final \<open>stroke\<close> and \<open>show_page\<close>.
\<close>

theorem single_stroke_scenario:
  assumes "length (points row) = 18" and "length (matrixValues row) = 9"
    and "thickness row = 2" and "shapeType row = 1" and "color row = 255"
  shows "\<exists>x0 y0 x1 y1.
    render_page initial_paint [row] =
      Inr ([stroke, set_line_width (6 / 10), stroke, set_source_rgb 0 0 1,
            move_to x0 y0, line_to x1 y1, stroke, show_page],
           \<lparr>prev_color = (255, 0, 0), prev_thickness = 2\<rparr>)"
proof -
  define pts where "pts = map (project (chunks 3 (matrixValues row))) (chunks 6 (points row))"
  define pressure where
    "pressure = map (\<lambda>r. (r ! 2 / pressure_norm) powr pressure_pow) (chunks 6 (points row))"
  define spts where
    "spts = smoothen (map (\<lambda>p. scale *\<^sub>R p) pts) average_win_size n_subsample"
  have d: "decode row = Inr (pts, pressure)"
    using assms(1,2) by (simp add: decode_well_formed pts_def pressure_def)
  have "length pts = 3"
    using assms(1) by (simp add: pts_def length_chunks)
  then have "length spts = 2"
    by (simp add: spts_def length_smoothen n_subsample_def)
  then obtain a b where ab: "spts = [a, b]"
    by (metis (no_types, opaque_lifting) One_nat_def Suc_1 length_0_conv length_Suc_conv)
  have paint: "fst (set_paint initial_paint row) =
      [stroke, set_line_width (6 / 10), stroke, set_source_rgb 0 0 1]"
    using assms(3,5)
    by (simp add: set_paint_ops initial_paint_def color_bytes_def bytes_of_255 width_scale_def)
  have st: "snd (set_paint initial_paint row) = \<lparr>prev_color = (255, 0, 0), prev_thickness = 2\<rparr>"
    using assms(3,5) by (simp add: set_paint_state color_bytes_def bytes_of_255)
  have "render_row initial_paint row =
      Inr ([stroke, set_line_width (6 / 10), stroke, set_source_rgb 0 0 1,
            move_to (px a) (py a), line_to (px b) (py b)],
           \<lparr>prev_color = (255, 0, 0), prev_thickness = 2\<rparr>)"
    using assms(4) ab
    by (simp add: render_row_walk [OF d] spts_def [symmetric] paint st walk_fixed_width_pair)
  then show ?thesis
    by (simp add: render_page_def)
qed

theorem single_stroke_scenario_witness:
  "\<exists>x0 y0 x1 y1.
    render_page initial_paint [blue_stroke] =
      Inr ([stroke, set_line_width (6 / 10), stroke, set_source_rgb 0 0 1,
            move_to x0 y0, line_to x1 y1, stroke, show_page],
           \<lparr>prev_color = (255, 0, 0), prev_thickness = 2\<rparr>)"
  using single_stroke_scenario [of blue_stroke] by (simp add: blue_stroke_def)

text \<open>
  C3. The tracked colour and thickness are not reset at the start of a page: when the
  second page begins with a stroke of the attributes that ended the first page, its calls
  start with \<open>move_to\<close>, without a flush and without setting either attribute.
\<close>

theorem page_reset_counterexample:
  "render_pdf [[blue_stroke], [blue_stroke]] =
     Inr [set_source_rgb 0 0 0, set_line_cap_round, set_line_join_round,
          stroke, set_line_width (6 / 10), stroke, set_source_rgb 0 0 1,
          move_to 792 792, line_to (5148 / 5) (5148 / 5), stroke, show_page,
          move_to 792 792, line_to (5148 / 5) (5148 / 5), stroke, show_page]"
  by (simp add: render_pdf_def render_page_blue_stroke render_page_blue_stroke_again)

text \<open>
  C3, as amended. The tracked colour and thickness are set once, to (0, 0, 0) and 0, before
  the first page, and are carried from each page to the next: after any number of pages
  they are those of the last stroke rendered so far (the starting values if there is
  none), and the next page is rendered from them. The first stroke of that page flushes and
  sets the colour exactly when its colour bytes differ from the tracked ones, and flushes
  and sets the line width whenever its thickness differs from the tracked one; when its
  thickness is the tracked one and no stroke of shape type 5 came before, it neither
  flushes nor sets the line width. The calls that follow are those of the stroke rendered
  with nothing to change, and then those of the rest of the page.
\<close>

theorem paint_state_carried_over:
  assumes "render_pages st pages = Inr (ops1, st1)"
    and "render_page st1 (row # rows) = Inr (ops2, st2)"
  shows "render_pages st (pages @ [row # rows]) = Inr (ops1 @ ops2, st2)
    \<and> (st = \<lparr>prev_color = (0, 0, 0), prev_thickness = 0\<rparr> \<longrightarrow>
         render_pdf (pages @ [row # rows]) =
           Inr ([set_source_rgb 0 0 0, set_line_cap_round, set_line_join_round]
                @ ops1 @ ops2))
    \<and> st1 = (if concat pages = [] then st
             else \<lparr>prev_color = color_bytes (color (last (concat pages))),
                   prev_thickness = thickness (last (concat pages))\<rparr>)
    \<and> (\<exists>width_calls calls rest st'.
          ops2 = width_calls
                 @ (if color_bytes (color row) \<noteq> prev_color st1
                    then [stroke,
                          set_source_rgb (real_of_int (drop_bit 16 (color row) AND 255) / 255)
                            (real_of_int (drop_bit 8 (color row) AND 255) / 255)
                            (real_of_int (color row AND 255) / 255)]
                    else [])
                 @ calls @ rest
          \<and> render_row st' row = Inr (calls, st')
          \<and> render_page st' rows = Inr (rest, st2)
          \<and> (prev_thickness st1 \<noteq> thickness row \<longrightarrow>
               width_calls = [stroke, set_line_width (thickness row * width_scale)])
          \<and> (prev_thickness st1 = thickness row
               \<and> (\<forall>r \<in> set (concat pages). shapeType r \<noteq> 5) \<longrightarrow>
               width_calls = []))"
proof -
  have s1: "render_pages st (pages @ [row # rows]) = Inr (ops1 @ ops2, st2)"
    using assms by (simp add: render_pages_append)
  have s2: "st = \<lparr>prev_color = (0, 0, 0), prev_thickness = 0\<rparr> \<longrightarrow>
         render_pdf (pages @ [row # rows]) =
           Inr ([set_source_rgb 0 0 0, set_line_cap_round, set_line_join_round]
                @ ops1 @ ops2)"
  proof
    assume i: "st = \<lparr>prev_color = (0, 0, 0), prev_thickness = 0\<rparr>"
    from s1 have "render_pages initial_paint (pages @ [row # rows]) = Inr (ops1 @ ops2, st2)"
      unfolding i initial_paint_def .
    then show "render_pdf (pages @ [row # rows]) =
           Inr ([set_source_rgb 0 0 0, set_line_cap_round, set_line_join_round]
                @ ops1 @ ops2)"
      by (simp only: render_pdf_def sum.case prod.case)
  qed
  note s3 = render_pages_state [OF assms(1)]
  from render_page_first [OF assms(2)] obtain ops st' rest where
    r: "render_row st1 row = Inr (ops, st')" and
    p: "render_page st' rows = Inr (rest, st2)" and
    o2: "ops2 = ops @ rest"
    by blast
  from render_row_decodes [OF r] obtain pts pressure where
    d: "decode row = Inr (pts, pressure)" by blast
  define calls where
    "calls = walk (shapeType row = 5) (thickness row)
       (smoothen (map (\<lambda>p. scale *\<^sub>R p) pts) average_win_size n_subsample)
       (smoothen pressure average_win_size n_subsample)"
  define width_calls where
    "width_calls = (if prev_thickness st1 \<noteq> thickness row
                    then [stroke, set_line_width (thickness row * width_scale)] else [])"
  have o: "ops = fst (set_paint st1 row) @ calls"
    and st': "st' = \<lparr>prev_color = color_bytes (color row), prev_thickness = thickness row\<rparr>"
    using r by (simp_all add: render_row_walk [OF d] calls_def set_paint_state)
  have again: "render_row st' row = Inr (calls, st')"
    by (simp add: render_row_walk [OF d] calls_def st' set_paint_same set_paint_state)
  have "ops2 = width_calls
                 @ (if color_bytes (color row) \<noteq> prev_color st1
                    then [stroke,
                          set_source_rgb (real_of_int (drop_bit 16 (color row) AND 255) / 255)
                            (real_of_int (drop_bit 8 (color row) AND 255) / 255)
                            (real_of_int (color row AND 255) / 255)]
                    else [])
                 @ calls @ rest"
    by (simp add: o2 o set_paint_ops width_calls_def)
  moreover have "prev_thickness st1 \<noteq> thickness row \<longrightarrow>
               width_calls = [stroke, set_line_width (thickness row * width_scale)]"
    by (simp add: width_calls_def)
  moreover have "prev_thickness st1 = thickness row
               \<and> (\<forall>r \<in> set (concat pages). shapeType r \<noteq> 5) \<longrightarrow> width_calls = []"
    by (simp add: width_calls_def)
  ultimately have s4: "\<exists>width_calls calls rest st'.
          ops2 = width_calls
                 @ (if color_bytes (color row) \<noteq> prev_color st1
                    then [stroke,
                          set_source_rgb (real_of_int (drop_bit 16 (color row) AND 255) / 255)
                            (real_of_int (drop_bit 8 (color row) AND 255) / 255)
                            (real_of_int (color row AND 255) / 255)]
                    else [])
                 @ calls @ rest
          \<and> render_row st' row = Inr (calls, st')
          \<and> render_page st' rows = Inr (rest, st2)
          \<and> (prev_thickness st1 \<noteq> thickness row \<longrightarrow>
               width_calls = [stroke, set_line_width (thickness row * width_scale)])
          \<and> (prev_thickness st1 = thickness row
               \<and> (\<forall>r \<in> set (concat pages). shapeType r \<noteq> 5) \<longrightarrow>
               width_calls = [])"
    using again p by (intro exI [of _ width_calls] exI [of _ calls] exI [of _ rest] exI [of _ st'] conjI)
  from s1 s2 s3 s4 show ?thesis by (intro conjI)
qed

theorem paint_state_carried_over_witness:
  "render_pages initial_paint ([[blue_stroke], [blue_stroke]] @ [[blue_stroke]]) =
     Inr ([stroke, set_line_width (6 / 10), stroke, set_source_rgb 0 0 1,
           move_to 792 792, line_to (5148 / 5) (5148 / 5), stroke, show_page,
           move_to 792 792, line_to (5148 / 5) (5148 / 5), stroke, show_page]
          @ [move_to 792 792, line_to (5148 / 5) (5148 / 5), stroke, show_page],
          \<lparr>prev_color = (255, 0, 0), prev_thickness = 2\<rparr>)
   \<and> render_pdf ([[blue_stroke], [blue_stroke]] @ [[blue_stroke]]) =
     Inr ([set_source_rgb 0 0 0, set_line_cap_round, set_line_join_round]
          @ [stroke, set_line_width (6 / 10), stroke, set_source_rgb 0 0 1,
             move_to 792 792, line_to (5148 / 5) (5148 / 5), stroke, show_page,
             move_to 792 792, line_to (5148 / 5) (5148 / 5), stroke, show_page]
          @ [move_to 792 792, line_to (5148 / 5) (5148 / 5), stroke, show_page])"
proof -
  note t = paint_state_carried_over [OF render_pages_two_blue render_page_blue_stroke_again]
  from t [THEN conjunct1] t [THEN conjunct2, THEN conjunct1, rule_format, OF initial_paint_def]
  show ?thesis by (rule conjI)
qed

text \<open>
  C4. For a pen stroke (shape type 5) whose smoothed sequence has \<open>N \<ge> 2\<close> samples, the
  calls that follow those of the attribute change are: the width and the \<open>move_to\<close> of the
  first sample, then for each further sample its width \<open>max (thickness * width_scale *
  pressure) 0.1\<close>, one \<open>line_to\<close>, one \<open>stroke\<close> and a \<open>move_to\<close>. So there is exactly
  one \<open>stroke\<close> for each of the \<open>N - 1\<close> line segments.
\<close>

theorem pressure_stroke_commits:
  assumes "decode row = Inr (pts, pressure)" and "shapeType row = 5"
    and "spts = smoothen (map (\<lambda>p. scale *\<^sub>R p) pts) average_win_size n_subsample"
    and "sprs = smoothen pressure average_win_size n_subsample"
    and "2 \<le> length spts"
  shows "\<exists>calls.
    render_row st row = Inr (fst (set_paint st row) @ calls, snd (set_paint st row))
    \<and> calls =
        set_line_width (max (thickness row * width_scale * sprs ! 0) (1 / 10))
        # move_to (px (spts ! 0)) (py (spts ! 0))
        # concat (map (\<lambda>r.
            [set_line_width (max (thickness row * width_scale * sprs ! r) (1 / 10)),
             line_to (px (spts ! r)) (py (spts ! r)), stroke,
             move_to (px (spts ! r)) (py (spts ! r))]) [1..<length spts])
    \<and> length (filter is_line_to calls) = length spts - 1
    \<and> length (filter is_stroke calls) = length spts - 1"
proof -
  from assms(5) have ne: "spts \<noteq> []" by auto
  have r: "render_row st row =
      Inr (fst (set_paint st row) @ walk True (thickness row) spts sprs, snd (set_paint st row))"
    using assms(2) by (simp add: render_row_walk [OF assms(1)] assms(3,4))
  note w = walk_pressure_split [OF ne, of "thickness row" sprs]
  have "length (filter is_line_to (walk True (thickness row) spts sprs)) = length spts - 1"
    unfolding w by (simp add: count_line_to_blocks is_line_to_def)
  moreover have "length (filter is_stroke (walk True (thickness row) spts sprs)) = length spts - 1"
    unfolding w by (simp add: count_strokes_blocks is_stroke_def)
  ultimately show ?thesis
    using r w by simp
qed

theorem pressure_stroke_commits_witness:
  "\<exists>calls.
    render_row initial_paint pen_stroke
      = Inr (fst (set_paint initial_paint pen_stroke) @ calls,
             snd (set_paint initial_paint pen_stroke))
    \<and> calls =
        set_line_width (max (thickness pen_stroke * width_scale * [13 / 20, 9 / 20, 3 / 10] ! 0) (1 / 10))
        # move_to (px ([Point (792 / 5) 0, Point (1188 / 5) 0, Point 297 0] ! 0))
            (py ([Point (792 / 5) 0, Point (1188 / 5) 0, Point 297 0] ! 0))
        # concat (map (\<lambda>r.
            [set_line_width (max (thickness pen_stroke * width_scale * [13 / 20, 9 / 20, 3 / 10] ! r) (1 / 10)),
             line_to (px ([Point (792 / 5) 0, Point (1188 / 5) 0, Point 297 0] ! r))
               (py ([Point (792 / 5) 0, Point (1188 / 5) 0, Point 297 0] ! r)), stroke,
             move_to (px ([Point (792 / 5) 0, Point (1188 / 5) 0, Point 297 0] ! r))
               (py ([Point (792 / 5) 0, Point (1188 / 5) 0, Point 297 0] ! r))])
            [1..<length [Point (792 / 5) 0, Point (1188 / 5) 0, Point 297 0]])
    \<and> length (filter is_line_to calls) = length [Point (792 / 5) 0, Point (1188 / 5) 0, Point 297 0] - 1
    \<and> length (filter is_stroke calls) = length [Point (792 / 5) 0, Point (1188 / 5) 0, Point 297 0] - 1"
  by (rule pressure_stroke_commits [OF decode_pen_stroke pen_stroke_fields(1)
        smoothen_pen_points [symmetric] smoothen_pen_pressure [symmetric]]) simp

text \<open>
  C9. For a pen stroke and every index \<open>r \<ge> 1\<close> of the smoothed sequence, the segment from
  point \<open>r - 1\<close> to point \<open>r\<close> is drawn by four consecutive calls: \<open>move_to\<close> point \<open>r - 1\<close>,
  line width \<open>max (thickness * 0.3 * pressure[r]) 0.1\<close>, \<open>line_to\<close> point \<open>r\<close>, \<open>stroke\<close>. The
  width in force at the \<open>stroke\<close> is the one of the end point \<open>r\<close>.
\<close>

theorem segment_width_from_endpoint:
  assumes "decode row = Inr (pts, pressure)" and "shapeType row = 5"
    and "spts = smoothen (map (\<lambda>p. scale *\<^sub>R p) pts) average_win_size n_subsample"
    and "sprs = smoothen pressure average_win_size n_subsample"
    and "1 \<le> r" and "r < length spts"
  shows "\<exists>calls.
    render_row st row = Inr (fst (set_paint st row) @ calls, snd (set_paint st row))
    \<and> take 4 (drop (4 * r - 3) calls) =
        [move_to (px (spts ! (r - 1))) (py (spts ! (r - 1))),
         set_line_width (max (thickness row * (3 / 10) * sprs ! r) (1 / 10)),
         line_to (px (spts ! r)) (py (spts ! r)),
         stroke]"
proof -
  from assms(6) have ne: "spts \<noteq> []" by auto
  then obtain n where n: "length spts = Suc n" by (cases spts) auto
  have rr: "render_row st row =
      Inr (fst (set_paint st row) @ walk True (thickness row) spts sprs, snd (set_paint st row))"
    using assms(2) by (simp add: render_row_walk [OF assms(1)] assms(3,4))
  define S where "S = (\<lambda>r. set_line_width (max (thickness row * width_scale * sprs ! r) (1 / 10)))"
  define L where "L = (\<lambda>r. line_to (px (spts ! r)) (py (spts ! r)))"
  define M where "M = (\<lambda>r. move_to (px (spts ! r)) (py (spts ! r)))"
  define h where "h = (\<lambda>r. [M (r - 1), S r, L r, stroke])"
  have "walk True (thickness row) spts sprs =
      S 0 # (M 0 # concat (map (\<lambda>r. [S r, L r, stroke, M r]) [Suc 0..<Suc n]))"
    by (simp add: walk_pressure_split [OF ne] S_def L_def M_def n)
  also have "\<dots> = S 0 # (concat (map h [Suc 0..<Suc n]) @ [M n])"
    by (simp only: blocks_regroup h_def)
  finally have w: "walk True (thickness row) spts sprs
      = S 0 # (concat (map h [Suc 0..<Suc n]) @ [M n])" .
  from assms(5) obtain j where j: "r = Suc j" by (cases r) auto
  have len: "length (h q) = 4" for q by (simp add: h_def)
  have "4 * r - 3 = Suc (4 * j)" by (simp add: j)
  then have "drop (4 * r - 3) (walk True (thickness row) spts sprs)
      = drop (4 * j) (concat (map h [Suc 0..<Suc n]) @ [M n])"
    by (simp add: w)
  also have "\<dots> = drop (4 * j) (concat (map h [Suc 0..<Suc n])) @ [M n]"
    using assms(6) by (simp add: length_concat comp_def len n j sum_list_triv)
  also have "\<dots> = concat (map h [r..<Suc n]) @ [M n]"
    using drop_blocks [of h 4 j "Suc 0" "Suc n", OF len] by (simp add: j)
  finally have d: "drop (4 * r - 3) (walk True (thickness row) spts sprs)
      = concat (map h [r..<Suc n]) @ [M n]" .
  have "r < Suc n" using assms(6) n by simp
  then have "take 4 (concat (map h [r..<Suc n]) @ [M n]) = h r"
    by (rule take_first_block) (rule len)
  then have "take 4 (drop (4 * r - 3) (walk True (thickness row) spts sprs)) = h r"
    by (simp only: d)
  then show ?thesis
    using rr by (simp add: h_def S_def L_def M_def width_scale_def)
qed

theorem segment_width_from_endpoint_witness:
  "\<exists>calls.
    render_row initial_paint pen_stroke
      = Inr (fst (set_paint initial_paint pen_stroke) @ calls,
             snd (set_paint initial_paint pen_stroke))
    \<and> take 4 (drop (4 * 2 - 3) calls) =
        [move_to (px ([Point (792 / 5) 0, Point (1188 / 5) 0, Point 297 0] ! (2 - 1)))
           (py ([Point (792 / 5) 0, Point (1188 / 5) 0, Point 297 0] ! (2 - 1))),
         set_line_width (max (thickness pen_stroke * (3 / 10) * [13 / 20, 9 / 20, 3 / 10] ! 2) (1 / 10)),
         line_to (px ([Point (792 / 5) 0, Point (1188 / 5) 0, Point 297 0] ! 2))
           (py ([Point (792 / 5) 0, Point (1188 / 5) 0, Point 297 0] ! 2)),
         stroke]"
  by (rule segment_width_from_endpoint [OF decode_pen_stroke pen_stroke_fields(1)
        smoothen_pen_points [symmetric] smoothen_pen_pressure [symmetric]]) simp_all

text \<open>
  Where the flush does come first: every stroke begins with a \<open>stroke\<close> call directly
  followed by the setting of the new value, once for each tracked attribute that differs;
  and on a page without strokes of shape type 5 every paint setting comes directly after a
  \<open>stroke\<close> call, and there is one \<open>stroke\<close> call more than there are paint settings.
\<close>

lemma paint_changes_flushed:
  "(render_row st row = Inr (ops, st') \<longrightarrow>
      (\<exists>calls. render_row st' row = Inr (calls, st')
         \<and> ops =
             (if prev_thickness st \<noteq> thickness row
              then [stroke, set_line_width (thickness row * width_scale)] else [])
             @ (if color_bytes (color row) \<noteq> prev_color st
                then [stroke,
                      set_source_rgb (real_of_int (drop_bit 16 (color row) AND 255) / 255)
                        (real_of_int (drop_bit 8 (color row) AND 255) / 255)
                        (real_of_int (color row AND 255) / 255)]
                else [])
             @ calls))
   \<and> (render_page st rows = Inr (page_ops, st'') \<and> (\<forall>row \<in> set rows. shapeType row \<noteq> 5) \<longrightarrow>
        flushed False page_ops \<and> flush_between_sets False page_ops
        \<and> length (filter is_stroke page_ops) = length (filter is_paint_set page_ops) + 1)"
proof (intro conjI impI)
  assume r: "render_row st row = Inr (ops, st')"
  from render_row_decodes [OF r] obtain pts pressure where
    d: "decode row = Inr (pts, pressure)" by blast
  define calls where
    "calls = walk (shapeType row = 5) (thickness row)
       (smoothen (map (\<lambda>p. scale *\<^sub>R p) pts) average_win_size n_subsample)
       (smoothen pressure average_win_size n_subsample)"
  have o: "ops = fst (set_paint st row) @ calls"
    and st': "st' = \<lparr>prev_color = color_bytes (color row), prev_thickness = thickness row\<rparr>"
    using r by (simp_all add: render_row_walk [OF d] calls_def set_paint_state)
  have "render_row st' row = Inr (calls, st')"
    by (simp add: render_row_walk [OF d] calls_def st' set_paint_same set_paint_state)
  with o show "\<exists>calls. render_row st' row = Inr (calls, st')
         \<and> ops =
             (if prev_thickness st \<noteq> thickness row
              then [stroke, set_line_width (thickness row * width_scale)] else [])
             @ (if color_bytes (color row) \<noteq> prev_color st
                then [stroke,
                      set_source_rgb (real_of_int (drop_bit 16 (color row) AND 255) / 255)
                        (real_of_int (drop_bit 8 (color row) AND 255) / 255)
                        (real_of_int (color row AND 255) / 255)]
                else [])
             @ calls"
    by (intro exI [of _ calls]) (simp add: set_paint_ops)
next
  assume a: "render_page st rows = Inr (page_ops, st'') \<and> (\<forall>row \<in> set rows. shapeType row \<noteq> 5)"
  then obtain ops0 where
    rows: "render_rows st rows = Inr (ops0, st'')" and o: "page_ops = ops0 @ [stroke, show_page]"
    by (auto simp: render_page_def split: sum.splits)
  from a have np: "\<And>row. row \<in> set rows \<Longrightarrow> shapeType row \<noteq> 5" by simp
  note f = render_rows_fixed_flushed [OF rows np]
  show fl: "flushed False page_ops"
    unfolding o flushed_append using f [of False]
    by (simp add: is_paint_set_def)
  from flushed_between [OF fl] show "flush_between_sets False page_ops" by simp
  show "length (filter is_stroke page_ops) = length (filter is_paint_set page_ops) + 1"
    unfolding o using f [of False] by (simp add: is_paint_set_def is_stroke_def)
qed

text \<open>
  C5. On a page where a stroke of fixed width is followed by a pen stroke of the same
  thickness and colour, nothing is flushed before the pen stroke sets its widths: the path
  of the first stroke (\<open>move_to\<close>, \<open>line_to\<close>) is still open when the line width is set to
  0.39 and then to 0.27, and the \<open>stroke\<close> call that follows commits it at 0.27, not at the
  0.6 of its own thickness.
\<close>

theorem pen_width_on_pending_path:
  "render_page initial_paint [blue_stroke, pen_stroke] =
     Inr ([stroke, set_line_width (6 / 10), stroke, set_source_rgb 0 0 1,
           move_to 792 792, line_to (5148 / 5) (5148 / 5),
           set_line_width (39 / 100), move_to (792 / 5) 0,
           set_line_width (27 / 100), line_to (1188 / 5) 0, stroke, move_to (1188 / 5) 0,
           set_line_width (9 / 50), line_to 297 0, stroke, move_to 297 0,
           stroke, show_page],
          \<lparr>prev_color = (255, 0, 0), prev_thickness = 2\<rparr>)"
  by (simp add: render_page_def render_row_blue_stroke render_row_pen_stroke_again)

end
